theory Spec2Isabelle
  imports Complex_Main "HOL-Library.Word" "HOL-Library.Multiset"
begin

section \<open>Dense vectors and matrices\<close>

text \<open>
  \<open>SVector<N>\<close> is a fixed-size column of \<open>N\<close> doubles, \<open>SMatrix<N, M>\<close> a fixed-size
  matrix with \<open>N\<close> rows and \<open>M\<close> columns in column-major storage: the constructor of
  \<open>Element\<close> fills it one column at a time (\<open>J_.col(j) = ...\<close>). A vector is a list of
  its entries and a matrix the list of its columns. The scalar type \<open>double\<close> is
  modelled by \<open>real\<close>: the development describes the element kernel in exact arithmetic,
  without rounding, infinities or NaN. The operations in double precision, with every
  result rounded, follow the exact ones in a section of their own.
\<close>

type_synonym vec = "real list"
type_synonym mat = "real list list"

definition vadd :: "vec \<Rightarrow> vec \<Rightarrow> vec" where
  "vadd u v = map2 (+) u v"

definition vsub :: "vec \<Rightarrow> vec \<Rightarrow> vec" where
  "vsub u v = map2 (-) u v"

definition smult :: "real \<Rightarrow> vec \<Rightarrow> vec" where
  "smult c v = map ((*) c) v"

definition dot :: "vec \<Rightarrow> vec \<Rightarrow> real" where
  "dot u v = sum_list (map2 (*) u v)"

text \<open>\<open>v.norm()\<close>: the Euclidean norm.\<close>

definition norm_vec :: "vec \<Rightarrow> real" where
  "norm_vec v = sqrt (dot v v)"

text \<open>\<open>a.cross(b)\<close>: Eigen defines it for vectors of size 3 only (a static assertion
  rejects every other size), hence no equation for other lengths.\<close>

fun cross :: "vec \<Rightarrow> vec \<Rightarrow> vec" where
  "cross [a0, a1, a2] [b0, b1, b2] =
     [a1 * b2 - a2 * b1, a2 * b0 - a0 * b2, a0 * b1 - a1 * b0]"

definition zero_vec :: "nat \<Rightarrow> vec" where
  "zero_vec n = replicate n 0"

definition unit_vec :: "nat \<Rightarrow> nat \<Rightarrow> vec" where
  "unit_vec n i = map (\<lambda>k. if k = i then 1 else 0) [0..<n]"

text \<open>\<open>A.transpose()\<close> of a matrix with \<open>n\<close> rows: its columns are the rows of \<open>A\<close>.\<close>

definition transpose_mat :: "nat \<Rightarrow> mat \<Rightarrow> mat" where
  "transpose_mat n A = map (\<lambda>i. map (\<lambda>c. c ! i) A) [0..<n]"

text \<open>\<open>A * v\<close> for a matrix with \<open>n\<close> rows: entry \<open>i\<close> is row \<open>i\<close> of \<open>A\<close> times \<open>v\<close>.\<close>

definition mat_vec :: "nat \<Rightarrow> mat \<Rightarrow> vec \<Rightarrow> vec" where
  "mat_vec n A v = map (\<lambda>r. dot r v) (transpose_mat n A)"

text \<open>\<open>A * B\<close> for \<open>A\<close> with \<open>n\<close> rows: column \<open>j\<close> is \<open>A\<close> times column \<open>j\<close> of \<open>B\<close>.\<close>

definition mat_mul :: "nat \<Rightarrow> mat \<Rightarrow> mat \<Rightarrow> mat" where
  "mat_mul n A B = map (mat_vec n A) B"

definition identity_mat :: "nat \<Rightarrow> mat" where
  "identity_mat n = map (unit_vec n) [0..<n]"

text \<open>A matrix with \<open>n\<close> rows and \<open>m\<close> columns.\<close>

definition is_mat :: "nat \<Rightarrow> nat \<Rightarrow> mat \<Rightarrow> bool" where
  "is_mat n m A \<longleftrightarrow> length A = m \<and> list_all (\<lambda>c. length c = n) A"

subsection \<open>Determinant\<close>

text \<open>
  \<open>A.determinant()\<close>, by Laplace expansion along the first row. \<open>laplace d pre post\<close> is
  the alternating sum over the columns \<open>post\<close>, the columns \<open>pre\<close> having been passed:
  each column contributes its first entry times the determinant \<open>d\<close> of the minor that
  drops the first row and that column.
\<close>

fun laplace :: "(mat \<Rightarrow> real) \<Rightarrow> mat \<Rightarrow> mat \<Rightarrow> real" where
  "laplace d pre [] = 0"
| "laplace d pre (c # post) = hd c * d (map tl (pre @ post)) - laplace d (pre @ [c]) post"

primrec determinant :: "nat \<Rightarrow> mat \<Rightarrow> real" where
  "determinant 0 A = 1"
| "determinant (Suc n) A = laplace (determinant n) [] A"

subsection \<open>Inverse\<close>

text \<open>
  \<open>A.inverse()\<close>. In exact arithmetic every algorithm for it returns the one inverse of an
  invertible matrix; the model computes it by Gauss-Jordan elimination on the rows of
  \<open>A\<close>, each carried with the matching row of the identity. For a singular matrix the
  source's result is meaningless (a division by a zero determinant or pivot); the model
  stops at the column without a pivot and no theorem below speaks about that value.
\<close>

type_synonym row = "vec \<times> vec"

definition rscale :: "real \<Rightarrow> row \<Rightarrow> row" where
  "rscale c p = (smult c (fst p), smult c (snd p))"

definition eliminate :: "nat \<Rightarrow> row \<Rightarrow> row \<Rightarrow> row" where
  "eliminate k p q =
     (vsub (fst q) (smult (fst q ! k) (fst p)), vsub (snd q) (smult (fst q ! k) (snd p)))"

fun find_pivot :: "nat \<Rightarrow> row list \<Rightarrow> (row list \<times> row \<times> row list) option" where
  "find_pivot k [] = None"
| "find_pivot k (q # qs) =
     (if fst q ! k \<noteq> 0 then Some ([], q, qs)
      else (case find_pivot k qs of
              None \<Rightarrow> None
            | Some (xs, p, ys) \<Rightarrow> Some (q # xs, p, ys)))"

fun gauss_jordan :: "nat \<Rightarrow> nat \<Rightarrow> row list \<Rightarrow> row list \<Rightarrow> row list" where
  "gauss_jordan 0 k done todo = done @ todo"
| "gauss_jordan (Suc m) k done todo =
     (case find_pivot k todo of
        None \<Rightarrow> done @ todo
      | Some (xs, p, ys) \<Rightarrow>
          (let p' = rscale (1 / fst p ! k) p
           in gauss_jordan m (Suc k) (map (eliminate k p') done @ [p'])
                (map (eliminate k p') (xs @ ys))))"

definition inverse_mat :: "nat \<Rightarrow> mat \<Rightarrow> mat" where
  "inverse_mat n A =
     transpose_mat n (map snd (gauss_jordan n 0 [] (zip (transpose_mat n A) (identity_mat n))))"

section \<open>The mesh element\<close>

text \<open>Modelled from the spec: \<open>ct_factorial\<close> of \<open>utils/compile_time.h\<close>, which is not
  among the sources; the spec calls it the compile-time factorial.\<close>

definition ct_factorial :: "nat \<Rightarrow> nat" where
  "ct_factorial n = fact n"

text \<open>
  The class template \<open>Element<M, N, R>\<close>. The template parameters \<open>M\<close> and \<open>N\<close> are kept
  in the fields \<open>local_dimension\<close> and \<open>embedding_dimension\<close>, the static members of
  the class; the order \<open>R\<close> enters no geometric computation and is left out.
  \<open>std::size_t\<close> is a 64-bit word and \<open>unsigned int\<close> a 32-bit word. A data member
  \<open>x_\<close> of the class is the field \<open>x_m\<close>.
\<close>

record Element =
  local_dimension :: nat
  embedding_dimension :: nat
  ID_m :: "64 word"
  node_ids_m :: "64 word list"
  coords_m :: "vec list"
  neighbors_m :: "int list"
  boundary_m :: bool
  measure_m :: real
  J_m :: mat
  inv_J_m :: mat

text \<open>The constructor: the barycentric matrix, its inverse and the measure are
  computed here and stored.\<close>

definition new_Element ::
  "nat \<Rightarrow> nat \<Rightarrow> 64 word \<Rightarrow> 64 word list \<Rightarrow> vec list \<Rightarrow> int list \<Rightarrow> bool \<Rightarrow> Element" where
  "new_Element M N ID node_ids coords neighbors boundary =
     (let ref = coords ! 0;
          J = map (\<lambda>j. vsub (coords ! (j + 1)) ref) [0..<M];
          inv_J = (if N = M then inverse_mat M J
                   else mat_mul M (inverse_mat M (mat_mul M (transpose_mat N J) J))
                          (transpose_mat N J));
          measure = (if M = N then \<bar>determinant M J\<bar> / real (ct_factorial M)
                     else (let m0 = 0;
                               m1 = (if M = 2 then 0.5 * norm_vec (cross (J ! 0) (J ! 1)) else m0)
                           in (if M = 1 then norm_vec (J ! 0) else m1)))
      in \<lparr> local_dimension = M, embedding_dimension = N, ID_m = ID, node_ids_m = node_ids,
           coords_m = coords, neighbors_m = neighbors, boundary_m = boundary,
           measure_m = measure, J_m = J, inv_J_m = inv_J \<rparr>)"

text \<open>Getters.\<close>

definition coords :: "Element \<Rightarrow> vec list" where
  "coords e = coords_m e"

definition neighbors :: "Element \<Rightarrow> int list" where
  "neighbors e = neighbors_m e"

definition ID :: "Element \<Rightarrow> 32 word" where
  "ID e = ucast (ID_m e)"

definition barycentric_matrix :: "Element \<Rightarrow> mat" where
  "barycentric_matrix e = J_m e"

definition inv_barycentric_matrix :: "Element \<Rightarrow> mat" where
  "inv_barycentric_matrix e = inv_J_m e"

definition node_ids :: "Element \<Rightarrow> 64 word list" where
  "node_ids e = node_ids_m e"

definition measure :: "Element \<Rightarrow> real" where
  "measure e = measure_m e"

definition is_on_boundary :: "Element \<Rightarrow> bool" where
  "is_on_boundary e = boundary_m e"

text \<open>\<open>std::numeric_limits<double>::epsilon()\<close>.\<close>

definition epsilon :: real where
  "epsilon = 1 / 2 ^ 52"

definition to_barycentric_coords :: "Element \<Rightarrow> vec \<Rightarrow> vec" where
  "to_barycentric_coords e x =
     (let z = mat_vec (local_dimension e) (inv_J_m e) (vsub x (coords_m e ! 0))
      in (1 - sum_list z) # z)"

definition mid_point :: "Element \<Rightarrow> vec" where
  "mid_point e =
     (let barycentric_mid_point =
            replicate (local_dimension e) (1 / real (local_dimension e + 1))
      in vadd (mat_vec (embedding_dimension e) (J_m e) barycentric_mid_point) (coords_m e ! 0))"

text \<open>
  \<open>VectorSpace<M, N>\<close> of \<open>linear_algebra/vector_space.h\<close> is not among the sources:
  the element only builds one from a basis and an offset and asks it for the distance
  of a point. The object is the pair it is built from, and its \<open>distance\<close> query is a
  parameter of \<open>contains\<close>.
\<close>

record VectorSpace =
  basis :: "vec list"
  offset :: vec

definition spanned_space :: "Element \<Rightarrow> VectorSpace" where
  "spanned_space e =
     \<lparr> basis = map (\<lambda>i. vsub (coords_m e ! (i + 1)) (coords_m e ! 0)) [0..<local_dimension e],
       offset = coords_m e ! 0 \<rparr>"

text \<open>The two overloads of \<open>contains\<close>, and the selection between them by
  \<open>is_manifold = (N != M)\<close>.\<close>

definition contains_volume :: "Element \<Rightarrow> vec \<Rightarrow> bool" where
  "contains_volume e x = list_all (\<lambda>b. b \<ge> - 10 * epsilon) (to_barycentric_coords e x)"

definition contains_manifold :: "(VectorSpace \<Rightarrow> vec \<Rightarrow> real) \<Rightarrow> Element \<Rightarrow> vec \<Rightarrow> bool" where
  "contains_manifold distance e x =
     (let vs = spanned_space e
      in if distance vs x > 10 * epsilon then False
         else list_all (\<lambda>b. b \<ge> - 10 * epsilon) (to_barycentric_coords e x))"

definition contains :: "(VectorSpace \<Rightarrow> vec \<Rightarrow> real) \<Rightarrow> Element \<Rightarrow> vec \<Rightarrow> bool" where
  "contains distance e x =
     (if embedding_dimension e \<noteq> local_dimension e then contains_manifold distance e x
      else contains_volume e x)"

section \<open>The element in double precision\<close>

text \<open>
  The definitions above compute in the real numbers. The program computes in
  \<open>double\<close>, the binary64 format of IEEE 754: 53 significant bits, every operation
  rounded to the nearest representable number, a tie going to the even significand.
  \<open>fl\<close> is that rounding. \<open>ulp\<close> is the spacing of the doubles around \<open>x\<close>: the power
  of two \<open>u\<close> with \<open>2^52 * u \<le> \<bar>x\<bar> < 2^53 * u\<close>, where \<open>2^52 = 4503599627370496\<close>
  and \<open>2^53 = 9007199254740992\<close>. It is found from \<open>u = 1\<close> by halving \<open>u\<close> and doubling
  \<open>x\<close> (at most 1074 times, which ends at the spacing \<open>2^-1074\<close> of the subnormal
  numbers), or by doubling \<open>u\<close> and halving \<open>x\<close> (at most 971 times, which ends at the
  spacing of the largest doubles). A
  result of magnitude \<open>2^1024\<close> or more is an infinity in the program and is not
  modelled.
\<close>

definition rne :: "real \<Rightarrow> int" where
  "rne x = (let f = \<lfloor>x\<rfloor>; d = x - of_int f
            in if d < 1 / 2 then f else if d > 1 / 2 then f + 1
               else if even f then f else f + 1)"

fun ulp_down :: "nat \<Rightarrow> real \<Rightarrow> real \<Rightarrow> real" where
  "ulp_down 0 x u = u"
| "ulp_down (Suc k) x u =
     (if x = 0 \<or> 4503599627370496 \<le> x then u else ulp_down k (2 * x) (u / 2))"

fun ulp_up :: "nat \<Rightarrow> real \<Rightarrow> real \<Rightarrow> real" where
  "ulp_up 0 x u = u"
| "ulp_up (Suc k) x u = (if x < 9007199254740992 then u else ulp_up k (x / 2) (2 * u))"

definition ulp :: "real \<Rightarrow> real" where
  "ulp x = (if \<bar>x\<bar> < 4503599627370496 then ulp_down 1074 \<bar>x\<bar> 1 else ulp_up 971 \<bar>x\<bar> 1)"

definition fl :: "real \<Rightarrow> real" where
  "fl x = of_int (rne (x / ulp x)) * ulp x"

text \<open>
  The operations of the element with every arithmetic operation of the source rounded.
  The order in which Eigen adds the terms of a sum or of a product is not part of the
  sources; the model adds them from left to right.
\<close>

definition vadd_fl :: "vec \<Rightarrow> vec \<Rightarrow> vec" where
  "vadd_fl u v = map2 (\<lambda>a b. fl (a + b)) u v"

definition vsub_fl :: "vec \<Rightarrow> vec \<Rightarrow> vec" where
  "vsub_fl u v = map2 (\<lambda>a b. fl (a - b)) u v"

definition smult_fl :: "real \<Rightarrow> vec \<Rightarrow> vec" where
  "smult_fl c v = map (\<lambda>a. fl (c * a)) v"

definition sum_fl :: "vec \<Rightarrow> real" where
  "sum_fl v = foldl (\<lambda>s a. fl (s + a)) 0 v"

definition dot_fl :: "vec \<Rightarrow> vec \<Rightarrow> real" where
  "dot_fl u v = sum_fl (map2 (\<lambda>a b. fl (a * b)) u v)"

definition norm_vec_fl :: "vec \<Rightarrow> real" where
  "norm_vec_fl v = fl (sqrt (dot_fl v v))"

fun cross_fl :: "vec \<Rightarrow> vec \<Rightarrow> vec" where
  "cross_fl [a0, a1, a2] [b0, b1, b2] =
     [fl (fl (a1 * b2) - fl (a2 * b1)), fl (fl (a2 * b0) - fl (a0 * b2)),
      fl (fl (a0 * b1) - fl (a1 * b0))]"

definition mat_vec_fl :: "nat \<Rightarrow> mat \<Rightarrow> vec \<Rightarrow> vec" where
  "mat_vec_fl n A v = map (\<lambda>r. dot_fl r v) (transpose_mat n A)"

definition mat_mul_fl :: "nat \<Rightarrow> mat \<Rightarrow> mat \<Rightarrow> mat" where
  "mat_mul_fl n A B = map (mat_vec_fl n A) B"

fun laplace_fl :: "(mat \<Rightarrow> real) \<Rightarrow> mat \<Rightarrow> mat \<Rightarrow> real" where
  "laplace_fl d pre [] = 0"
| "laplace_fl d pre (c # post) =
     fl (fl (hd c * d (map tl (pre @ post))) - laplace_fl d (pre @ [c]) post)"

primrec determinant_fl :: "nat \<Rightarrow> mat \<Rightarrow> real" where
  "determinant_fl 0 A = 1"
| "determinant_fl (Suc n) A = laplace_fl (determinant_fl n) [] A"

definition rscale_fl :: "real \<Rightarrow> row \<Rightarrow> row" where
  "rscale_fl c p = (smult_fl c (fst p), smult_fl c (snd p))"

definition eliminate_fl :: "nat \<Rightarrow> row \<Rightarrow> row \<Rightarrow> row" where
  "eliminate_fl k p q =
     (vsub_fl (fst q) (smult_fl (fst q ! k) (fst p)),
      vsub_fl (snd q) (smult_fl (fst q ! k) (snd p)))"

fun gauss_jordan_fl :: "nat \<Rightarrow> nat \<Rightarrow> row list \<Rightarrow> row list \<Rightarrow> row list" where
  "gauss_jordan_fl 0 k done todo = done @ todo"
| "gauss_jordan_fl (Suc m) k done todo =
     (case find_pivot k todo of
        None \<Rightarrow> done @ todo
      | Some (xs, p, ys) \<Rightarrow>
          (let p' = rscale_fl (fl (1 / fst p ! k)) p
           in gauss_jordan_fl m (Suc k) (map (eliminate_fl k p') done @ [p'])
                (map (eliminate_fl k p') (xs @ ys))))"

definition inverse_mat_fl :: "nat \<Rightarrow> mat \<Rightarrow> mat" where
  "inverse_mat_fl n A =
     transpose_mat n
       (map snd (gauss_jordan_fl n 0 [] (zip (transpose_mat n A) (identity_mat n))))"

definition new_Element_fl ::
  "nat \<Rightarrow> nat \<Rightarrow> 64 word \<Rightarrow> 64 word list \<Rightarrow> vec list \<Rightarrow> int list \<Rightarrow> bool \<Rightarrow> Element" where
  "new_Element_fl M N ident nodes cs nbs bnd =
     (let ref = cs ! 0;
          J = map (\<lambda>j. vsub_fl (cs ! (j + 1)) ref) [0..<M];
          inv_J = (if N = M then inverse_mat_fl M J
                   else mat_mul_fl M (inverse_mat_fl M (mat_mul_fl M (transpose_mat N J) J))
                          (transpose_mat N J));
          meas = (if M = N then fl (\<bar>determinant_fl M J\<bar> / real (ct_factorial M))
                  else (let m0 = 0;
                            m1 = (if M = 2
                                  then fl (0.5 * norm_vec_fl (cross_fl (J ! 0) (J ! 1)))
                                  else m0)
                        in (if M = 1 then norm_vec_fl (J ! 0) else m1)))
      in \<lparr> local_dimension = M, embedding_dimension = N, ID_m = ident, node_ids_m = nodes,
           coords_m = cs, neighbors_m = nbs, boundary_m = bnd,
           measure_m = meas, J_m = J, inv_J_m = inv_J \<rparr>)"

definition to_barycentric_coords_fl :: "Element \<Rightarrow> vec \<Rightarrow> vec" where
  "to_barycentric_coords_fl e x =
     (let z = mat_vec_fl (local_dimension e) (inv_J_m e) (vsub_fl x (coords_m e ! 0))
      in fl (1 - sum_fl z) # z)"

definition mid_point_fl :: "Element \<Rightarrow> vec" where
  "mid_point_fl e =
     (let barycentric_mid_point =
            replicate (local_dimension e) (fl (1 / real (local_dimension e + 1)))
      in vadd_fl (mat_vec_fl (embedding_dimension e) (J_m e) barycentric_mid_point)
           (coords_m e ! 0))"

definition spanned_space_fl :: "Element \<Rightarrow> VectorSpace" where
  "spanned_space_fl e =
     \<lparr> basis = map (\<lambda>i. vsub_fl (coords_m e ! (i + 1)) (coords_m e ! 0))
                 [0..<local_dimension e],
       offset = coords_m e ! 0 \<rparr>"

definition contains_volume_fl :: "Element \<Rightarrow> vec \<Rightarrow> bool" where
  "contains_volume_fl e x =
     list_all (\<lambda>b. b \<ge> - 10 * epsilon) (to_barycentric_coords_fl e x)"

definition contains_manifold_fl ::
  "(VectorSpace \<Rightarrow> vec \<Rightarrow> real) \<Rightarrow> Element \<Rightarrow> vec \<Rightarrow> bool" where
  "contains_manifold_fl distance e x =
     (let vs = spanned_space_fl e
      in if distance vs x > 10 * epsilon then False
         else list_all (\<lambda>b. b \<ge> - 10 * epsilon) (to_barycentric_coords_fl e x))"

definition contains_fl :: "(VectorSpace \<Rightarrow> vec \<Rightarrow> real) \<Rightarrow> Element \<Rightarrow> vec \<Rightarrow> bool" where
  "contains_fl distance e x =
     (if embedding_dimension e \<noteq> local_dimension e then contains_manifold_fl distance e x
      else contains_volume_fl e x)"

section \<open>Notions for the statements\<close>

text \<open>The columns of \<open>A\<close> (a matrix with \<open>n\<close> rows) are linearly independent: only
  the zero vector is mapped to zero.\<close>

definition full_column_rank :: "nat \<Rightarrow> mat \<Rightarrow> bool" where
  "full_column_rank n A \<longleftrightarrow>
     (\<forall>v. length v = length A \<longrightarrow> mat_vec n A v = zero_vec n \<longrightarrow> v = zero_vec (length A))"

text \<open>A row of the elimination: both halves have \<open>n\<close> entries.\<close>

definition row_ok :: "nat \<Rightarrow> row \<Rightarrow> bool" where
  "row_ok n p \<longleftrightarrow> length (fst p) = n \<and> length (snd p) = n"

text \<open>A square matrix is invertible: some matrix is its inverse on both sides.\<close>

definition invertible_mat :: "nat \<Rightarrow> mat \<Rightarrow> bool" where
  "invertible_mat n A \<longleftrightarrow>
     (\<exists>B. is_mat n n B \<and> mat_mul n B A = identity_mat n \<and> mat_mul n A B = identity_mat n)"

section \<open>Evaluation\<close>

lemmas element_defs = new_Element_def Let_def vsub_def vadd_def smult_def dot_def mat_vec_def
  mat_mul_def transpose_mat_def identity_mat_def unit_vec_def inverse_mat_def rscale_def
  eliminate_def to_barycentric_coords_def contains_def contains_volume_def
  contains_manifold_def epsilon_def mid_point_def ct_factorial_def measure_def norm_vec_def
  spanned_space_def

section \<open>Vectors\<close>

lemma length_vsub [simp]: "length (vsub u v) = min (length u) (length v)"
  by (simp add: vsub_def)
lemma length_vadd [simp]: "length (vadd u v) = min (length u) (length v)"
  by (simp add: vadd_def)
lemma length_smult [simp]: "length (smult c v) = length v"
  by (simp add: smult_def)
lemma length_zero_vec [simp]: "length (zero_vec n) = n"
  by (simp add: zero_vec_def)
lemma length_unit_vec [simp]: "length (unit_vec n i) = n"
  by (simp add: unit_vec_def)

lemma nth_vsub: "i < length u \<Longrightarrow> i < length v \<Longrightarrow> vsub u v ! i = u ! i - v ! i"
  by (simp add: vsub_def)
lemma nth_vadd: "i < length u \<Longrightarrow> i < length v \<Longrightarrow> vadd u v ! i = u ! i + v ! i"
  by (simp add: vadd_def)
lemma nth_smult: "i < length v \<Longrightarrow> smult c v ! i = c * v ! i"
  by (simp add: smult_def)
lemma nth_zero_vec: "i < n \<Longrightarrow> zero_vec n ! i = 0"
  by (simp add: zero_vec_def)
lemma nth_unit_vec: "k < n \<Longrightarrow> unit_vec n i ! k = (if k = i then 1 else 0)"
  by (simp add: unit_vec_def)

lemma dot_sum: "dot u v = (\<Sum>i<min (length u) (length v). u ! i * v ! i)"
  by (simp add: dot_def sum_list_sum_nth atLeast0LessThan)

lemma dot_sum_n: "length u = n \<Longrightarrow> length v = n \<Longrightarrow> dot u v = (\<Sum>i<n. u ! i * v ! i)"
  by (simp add: dot_sum)

lemma dot_commute: "dot u v = dot v u"
  by (simp add: dot_sum min.commute mult.commute)

lemma dot_vsub_left:
  "length u = n \<Longrightarrow> length u' = n \<Longrightarrow> length v = n \<Longrightarrow>
   dot (vsub u u') v = dot u v - dot u' v"
  by (simp add: dot_sum nth_vsub sum_subtractf left_diff_distrib)

lemma dot_smult_left: "dot (smult c u) v = c * dot u v"
  by (simp add: dot_sum nth_smult sum_distrib_left mult.assoc)

lemma dot_unit_left: "i < n \<Longrightarrow> length v = n \<Longrightarrow> dot (unit_vec n i) v = v ! i"
  by (simp add: dot_sum nth_unit_vec if_distrib [of "\<lambda>x. x * _"] sum.delta cong: if_cong)

lemma dot_self_nonneg: "dot v v \<ge> 0"
  by (simp add: dot_sum sum_nonneg)

lemma dot_self_zero: assumes "dot v v = 0" shows "v = zero_vec (length v)"
proof (rule nth_equalityI)
  show "length v = length (zero_vec (length v))" by simp
  fix i assume i: "i < length v"
  have "(\<Sum>i<length v. v ! i * v ! i) = 0" using assms by (simp add: dot_sum)
  then have "\<forall>i\<in>{..<length v}. v ! i * v ! i = 0"
    by (subst (asm) sum_nonneg_eq_0_iff) auto
  then show "v ! i = zero_vec (length v) ! i" using i by (simp add: nth_zero_vec)
qed

lemma nth_transpose_mat: "i < n \<Longrightarrow> transpose_mat n A ! i = map (\<lambda>c. c ! i) A"
  by (simp add: transpose_mat_def)

lemma length_transpose_mat: "length (transpose_mat n A) = n"
  by (simp add: transpose_mat_def)

lemma length_mat_vec: "length (mat_vec n A v) = n"
  by (simp add: mat_vec_def length_transpose_mat)

lemma nth_mat_vec: "i < n \<Longrightarrow> mat_vec n A v ! i = dot (map (\<lambda>c. c ! i) A) v"
  by (simp add: mat_vec_def nth_transpose_mat length_transpose_mat)

lemma nth_mat_vec_sum:
  "i < n \<Longrightarrow> length A = m \<Longrightarrow> length v = m \<Longrightarrow> mat_vec n A v ! i = (\<Sum>j<m. A ! j ! i * v ! j)"
  by (simp add: nth_mat_vec dot_sum)

section \<open>Gauss-Jordan elimination\<close>

lemma find_pivot_Some:
  "find_pivot k qs = Some (xs, p, ys) \<Longrightarrow> qs = xs @ p # ys \<and> fst p ! k \<noteq> 0"
  by (induction qs arbitrary: xs) (auto split: if_splits option.splits)

lemma find_pivot_None: "find_pivot k qs = None \<Longrightarrow> \<forall>q\<in>set qs. fst q ! k = 0"
  by (induction qs) (auto split: if_splits option.splits)

lemma row_ok_rscale: "row_ok n p \<Longrightarrow> row_ok n (rscale c p)"
  by (simp add: row_ok_def rscale_def)

lemma row_ok_eliminate: "row_ok n p \<Longrightarrow> row_ok n q \<Longrightarrow> row_ok n (eliminate k p q)"
  by (simp add: row_ok_def eliminate_def)

lemma fst_rscale_nth: "j < length (fst p) \<Longrightarrow> fst (rscale c p) ! j = c * fst p ! j"
  by (simp add: rscale_def nth_smult)

lemma fst_eliminate_nth:
  "row_ok n p \<Longrightarrow> row_ok n q \<Longrightarrow> j < n \<Longrightarrow>
   fst (eliminate k p q) ! j = fst q ! j - fst q ! k * fst p ! j"
  by (simp add: eliminate_def row_ok_def nth_vsub nth_smult)

lemma dot_elim_zero:
  assumes "length a = n" "length b = n" "length v = n"
    and "dot (vsub a (smult t b)) v = 0" "dot b v = 0"
  shows "dot a v = 0"
proof -
  have "dot (vsub a (smult t b)) v = dot a v - t * dot b v"
    using assms(1-3) by (simp add: dot_vsub_left [of _ n] dot_smult_left)
  with assms(4,5) show ?thesis by simp
qed

lemma dot_scale_zero: "c \<noteq> 0 \<Longrightarrow> dot (smult c b) v = 0 \<Longrightarrow> dot b v = 0"
  by (simp add: dot_smult_left)

text \<open>One elimination step does not enlarge the common kernel of the rows.\<close>

lemma step_kernel_fst:
  assumes ok: "\<forall>q\<in>set (done @ xs @ p # ys). row_ok n q" and c: "c \<noteq> 0" and v: "length v = n"
    and new: "\<forall>q\<in>set (map (eliminate k (rscale c p)) done @ [rscale c p] @
                 map (eliminate k (rscale c p)) (xs @ ys)). dot (fst q) v = 0"
  shows "\<forall>q\<in>set (done @ xs @ p # ys). dot (fst q) v = 0"
proof -
  let ?p = "rscale c p"
  have p_ok: "row_ok n p" using ok by simp
  have p': "dot (fst ?p) v = 0" using new by simp
  then have p0: "dot (fst p) v = 0"
    using c by (simp add: rscale_def dot_smult_left)
  have "dot (fst q) v = 0" if q: "q \<in> set (done @ xs @ ys)" for q
  proof -
    have q_ok: "row_ok n q" using ok q by auto
    have "dot (fst (eliminate k ?p q)) v = 0" using new q by auto
    then show ?thesis
      using dot_elim_zero [of "fst q" n "fst ?p" v "fst q ! k"] p' q_ok p_ok v
      by (simp add: eliminate_def row_ok_def rscale_def)
  qed
  with p0 show ?thesis by auto
qed

lemma step_kernel_snd:
  assumes ok: "\<forall>q\<in>set (done @ xs @ p # ys). row_ok n q" and c: "c \<noteq> 0" and v: "length v = n"
    and new: "\<forall>q\<in>set (map (eliminate k (rscale c p)) done @ [rscale c p] @
                 map (eliminate k (rscale c p)) (xs @ ys)). dot (snd q) v = 0"
  shows "\<forall>q\<in>set (done @ xs @ p # ys). dot (snd q) v = 0"
proof -
  let ?p = "rscale c p"
  have p_ok: "row_ok n p" using ok by simp
  have p': "dot (snd ?p) v = 0" using new by simp
  then have p0: "dot (snd p) v = 0"
    using c by (simp add: rscale_def dot_smult_left)
  have "dot (snd q) v = 0" if q: "q \<in> set (done @ xs @ ys)" for q
  proof -
    have q_ok: "row_ok n q" using ok q by auto
    have "dot (snd (eliminate k ?p q)) v = 0" using new q by auto
    then show ?thesis
      using dot_elim_zero [of "snd q" n "snd ?p" v "fst q ! k"] p' q_ok p_ok v
      by (simp add: eliminate_def row_ok_def rscale_def)
  qed
  with p0 show ?thesis by auto
qed

lemma step_row_ok:
  assumes "\<forall>q\<in>set (done @ xs @ p # ys). row_ok n q"
  shows "\<forall>q\<in>set ((map (eliminate k (rscale c p)) done @ [rscale c p]) @
           map (eliminate k (rscale c p)) (xs @ ys)). row_ok n q"
  using assms by (auto simp: row_ok_rscale row_ok_eliminate)

lemma gauss_jordan_row_ok:
  "\<forall>q\<in>set (done @ todo). row_ok n q \<Longrightarrow> \<forall>q\<in>set (gauss_jordan m k done todo). row_ok n q"
proof (induction m arbitrary: k "done" todo)
  case 0
  then show ?case by simp
next
  case (Suc m)
  show ?case
  proof (cases "find_pivot k todo")
    case None
    then show ?thesis using Suc.prems by simp
  next
    case (Some t)
    obtain xs p ys where t: "t = (xs, p, ys)" by (cases t)
    from find_pivot_Some [OF Some [unfolded t]] have todo: "todo = xs @ p # ys" by simp
    let ?p = "rscale (1 / fst p ! k) p"
    have "\<forall>q\<in>set ((map (eliminate k ?p) done @ [?p]) @ map (eliminate k ?p) (xs @ ys)). row_ok n q"
      using Suc.prems todo by (intro step_row_ok) simp
    from Suc.IH [OF this] show ?thesis using Some t by (simp add: Let_def)
  qed
qed

lemma gauss_jordan_kernel_snd:
  assumes "\<forall>q\<in>set (done @ todo). row_ok n q" "length v = n"
    "\<forall>q\<in>set (gauss_jordan m k done todo). dot (snd q) v = 0"
  shows "\<forall>q\<in>set (done @ todo). dot (snd q) v = 0"
  using assms
proof (induction m arbitrary: k "done" todo)
  case 0
  then show ?case by simp
next
  case (Suc m)
  show ?case
  proof (cases "find_pivot k todo")
    case None
    then show ?thesis using Suc.prems by simp
  next
    case (Some t)
    obtain xs p ys where t: "t = (xs, p, ys)" by (cases t)
    from find_pivot_Some [OF Some [unfolded t]]
    have todo: "todo = xs @ p # ys" and piv: "fst p ! k \<noteq> 0" by simp_all
    let ?c = "1 / fst p ! k"
    let ?p = "rscale ?c p"
    have ok': "\<forall>q\<in>set ((map (eliminate k ?p) done @ [?p]) @ map (eliminate k ?p) (xs @ ys)). row_ok n q"
      using Suc.prems(1) todo by (intro step_row_ok) simp
    have res: "\<forall>q\<in>set (gauss_jordan m (Suc k) (map (eliminate k ?p) done @ [?p])
                 (map (eliminate k ?p) (xs @ ys))). dot (snd q) v = 0"
      using Suc.prems(3) Some t by (simp add: Let_def)
    from Suc.IH [OF ok' Suc.prems(2) res]
    have "\<forall>q\<in>set (map (eliminate k ?p) done @ [?p] @ map (eliminate k ?p) (xs @ ys)). dot (snd q) v = 0"
      by simp
    from step_kernel_snd [OF _ _ Suc.prems(2) this] Suc.prems(1) piv todo
    show ?thesis by simp
  qed
qed

lemma step_rel:
  assumes ok: "\<forall>q\<in>set (done @ xs @ p # ys). row_ok n q"
    and A: "\<forall>j<n. length (A ! j) = n"
    and rel: "\<forall>q\<in>set (done @ xs @ p # ys). \<forall>j<n. fst q ! j = dot (snd q) (A ! j)"
  shows "\<forall>q\<in>set ((map (eliminate k (rscale c p)) done @ [rscale c p]) @
           map (eliminate k (rscale c p)) (xs @ ys)). \<forall>j<n. fst q ! j = dot (snd q) (A ! j)"
proof -
  let ?p = "rscale c p"
  have p_ok: "row_ok n p" and p'_ok: "row_ok n ?p" using ok by (simp_all add: row_ok_rscale)
  have p_rel: "\<forall>j<n. fst ?p ! j = dot (snd ?p) (A ! j)"
    using rel p_ok by (simp add: row_ok_def rscale_def nth_smult dot_smult_left)
  have "\<forall>j<n. fst (eliminate k ?p q) ! j = dot (snd (eliminate k ?p q)) (A ! j)"
    if q: "q \<in> set (done @ xs @ ys)" for q
  proof (intro allI impI)
    fix j assume j: "j < n"
    have q_ok: "row_ok n q" and q_rel: "fst q ! j = dot (snd q) (A ! j)"
      using ok rel q j by auto
    have "dot (snd (eliminate k ?p q)) (A ! j) =
          dot (snd q) (A ! j) - fst q ! k * dot (snd ?p) (A ! j)"
      using q_ok p'_ok A j
      by (simp add: eliminate_def row_ok_def dot_vsub_left [of _ n] dot_smult_left)
    then show "fst (eliminate k ?p q) ! j = dot (snd (eliminate k ?p q)) (A ! j)"
      using fst_eliminate_nth [OF p'_ok q_ok j, of k] q_rel p_rel j by simp
  qed
  with p_rel show ?thesis by auto
qed

lemma gauss_jordan_rel:
  assumes "\<forall>q\<in>set (done @ todo). row_ok n q" "\<forall>j<n. length (A ! j) = n"
    "\<forall>q\<in>set (done @ todo). \<forall>j<n. fst q ! j = dot (snd q) (A ! j)"
  shows "\<forall>q\<in>set (gauss_jordan m k done todo). \<forall>j<n. fst q ! j = dot (snd q) (A ! j)"
  using assms
proof (induction m arbitrary: k "done" todo)
  case 0
  then show ?case by simp
next
  case (Suc m)
  show ?case
  proof (cases "find_pivot k todo")
    case None
    then show ?thesis using Suc.prems by simp
  next
    case (Some t)
    obtain xs p ys where t: "t = (xs, p, ys)" by (cases t)
    from find_pivot_Some [OF Some [unfolded t]] have todo: "todo = xs @ p # ys" by simp
    let ?p = "rscale (1 / fst p ! k) p"
    have ok: "\<forall>q\<in>set (done @ xs @ p # ys). row_ok n q" using Suc.prems(1) todo by simp
    have rel: "\<forall>q\<in>set (done @ xs @ p # ys). \<forall>j<n. fst q ! j = dot (snd q) (A ! j)"
      using Suc.prems(3) todo by simp
    from Suc.IH [OF step_row_ok [OF ok] Suc.prems(2) step_rel [OF ok Suc.prems(2) rel]]
    show ?thesis using Some t by (simp add: Let_def)
  qed
qed

text \<open>The vector that a column without pivot gives: it is orthogonal to every row.\<close>

lemma no_pivot_kernel:
  assumes k: "k < n" and len: "length done = k"
    and ok: "\<forall>q\<in>set (done @ todo). row_ok n q"
    and dn: "\<forall>i<k. \<forall>j<k. fst (done ! i) ! j = (if i = j then 1 else 0)"
    and td: "\<forall>q\<in>set todo. \<forall>j<k. fst q ! j = 0"
    and np: "\<forall>q\<in>set todo. fst q ! k = 0"
    and ker: "\<forall>v. length v = n \<longrightarrow> (\<forall>q\<in>set (done @ todo). dot (fst q) v = 0) \<longrightarrow> v = zero_vec n"
  shows False
proof -
  define v where "v = map (\<lambda>j. if j < k then - fst (done ! j) ! k else if j = k then 1 else 0) [0..<n]"
  have lv: "length v = n" by (simp add: v_def)
  have vn: "v ! j = (if j < k then - fst (done ! j) ! k else if j = k then 1 else 0)" if "j < n" for j
    using that by (simp add: v_def)
  have "dot (fst q) v = 0" if q: "q \<in> set (done @ todo)" for q
  proof -
    have lq: "length (fst q) = n" using ok q by (simp add: row_ok_def)
    have d: "dot (fst q) v = (\<Sum>j<n. fst q ! j * v ! j)" using lq lv by (simp add: dot_sum)
    from q consider (d) "q \<in> set done" | (t) "q \<in> set todo" by auto
    then show ?thesis
    proof cases
      case d
      then obtain i where i: "i < k" "q = done ! i" using len by (auto simp: in_set_conv_nth)
      have "fst q ! j * v ! j = (if j = i then - fst q ! k else 0) + (if j = k then fst q ! k else 0)"
        if "j < n" for j
        using that dn i vn [OF that] by auto
      then have "(\<Sum>j<n. fst q ! j * v ! j) =
                 (\<Sum>j<n. (if j = i then - fst q ! k else 0) + (if j = k then fst q ! k else 0))"
        by (intro sum.cong) auto
      also have "\<dots> = 0" using i(1) k by (simp add: sum.distrib)
      finally show ?thesis using \<open>dot (fst q) v = (\<Sum>j<n. fst q ! j * v ! j)\<close> by simp
    next
      case t
      have "fst q ! j * v ! j = 0" if "j < n" for j
        using that td np t vn [OF that] by auto
      then have "(\<Sum>j<n. fst q ! j * v ! j) = 0" by (intro sum.neutral) auto
      then show ?thesis using \<open>dot (fst q) v = (\<Sum>j<n. fst q ! j * v ! j)\<close> by simp
    qed
  qed
  with ker lv have "v = zero_vec n" by blast
  then have "v ! k = 0" using k by (simp add: nth_zero_vec)
  then show False using vn [OF k] by simp
qed

lemma step_shape:
  assumes len: "length done = k" and k: "k < n"
    and ok: "\<forall>q\<in>set (done @ xs @ p # ys). row_ok n q"
    and dn: "\<forall>i<k. \<forall>j<k. fst (done ! i) ! j = (if i = j then 1 else 0)"
    and td: "\<forall>q\<in>set (xs @ p # ys). \<forall>j<k. fst q ! j = 0"
    and piv: "fst p ! k \<noteq> 0"
  shows "(\<forall>i<Suc k. \<forall>j<Suc k.
           fst ((map (eliminate k (rscale (1 / fst p ! k) p)) done @ [rscale (1 / fst p ! k) p]) ! i) ! j =
             (if i = j then 1 else 0)) \<and>
         (\<forall>q\<in>set (map (eliminate k (rscale (1 / fst p ! k) p)) (xs @ ys)). \<forall>j<Suc k. fst q ! j = 0)"
proof -
  let ?p = "rscale (1 / fst p ! k) p"
  have p_ok: "row_ok n p" and p'_ok: "row_ok n ?p" using ok by (simp_all add: row_ok_rscale)
  have pj: "fst ?p ! j = (if j = k then 1 else 0)" if "j < Suc k" for j
    using that p_ok k td piv by (auto simp: fst_rscale_nth row_ok_def less_Suc_eq)
  have el: "fst (eliminate k ?p q) ! j = (if j = k then 0 else fst q ! j)"
    if "q \<in> set (done @ xs @ ys)" "j < Suc k" for q j
  proof -
    have "row_ok n q" using ok that(1) by auto
    from fst_eliminate_nth [OF p'_ok this, of j k] that(2) k pj [OF that(2)]
    show ?thesis by auto
  qed
  have 1: "fst ((map (eliminate k ?p) done @ [?p]) ! i) ! j = (if i = j then 1 else 0)"
    if i: "i < Suc k" and j: "j < Suc k" for i j
  proof (cases "i < k")
    case True
    then have "(map (eliminate k ?p) done @ [?p]) ! i = eliminate k ?p (done ! i)"
      using len by (simp add: nth_append)
    moreover have "done ! i \<in> set (done @ xs @ ys)" using True len by simp
    ultimately show ?thesis using el [OF _ j] dn True j by (auto simp: less_Suc_eq)
  next
    case False
    then have "i = k" using i by simp
    then have "(map (eliminate k ?p) done @ [?p]) ! i = ?p" using len by (simp add: nth_append)
    then show ?thesis using pj [OF j] \<open>i = k\<close> by auto
  qed
  have 2: "fst q ! j = 0" if "q \<in> set (map (eliminate k ?p) (xs @ ys))" "j < Suc k" for q j
  proof -
    from that(1) obtain q0 where q0: "q0 \<in> set (xs @ ys)" "q = eliminate k ?p q0" by auto
    then have "q0 \<in> set (done @ xs @ ys)" by simp
    from el [OF this that(2)] q0 td that(2) show ?thesis by (auto simp: less_Suc_eq)
  qed
  from 1 2 show ?thesis by blast
qed

lemma gauss_jordan_units:
  assumes "k + m = n" "length done = k" "length todo = m"
    and "\<forall>q\<in>set (done @ todo). row_ok n q"
    and "\<forall>i<k. \<forall>j<k. fst (done ! i) ! j = (if i = j then 1 else 0)"
    and "\<forall>q\<in>set todo. \<forall>j<k. fst q ! j = 0"
    and "\<forall>v. length v = n \<longrightarrow> (\<forall>q\<in>set (done @ todo). dot (fst q) v = 0) \<longrightarrow> v = zero_vec n"
  shows "length (gauss_jordan m k done todo) = n \<and>
         (\<forall>i<n. fst (gauss_jordan m k done todo ! i) = unit_vec n i)"
  using assms
proof (induction m arbitrary: k "done" todo)
  case 0
  then have kn: "k = n" and td: "todo = []" by simp_all
  have "fst (done ! i) = unit_vec n i" if i: "i < n" for i
  proof (rule nth_equalityI)
    have "done ! i \<in> set done" using i 0(2) kn by simp
    then show "length (fst (done ! i)) = length (unit_vec n i)"
      using 0(4) by (simp add: row_ok_def)
  next
    fix j assume "j < length (fst (done ! i))"
    moreover have "done ! i \<in> set done" using i 0(2) kn by simp
    ultimately have j: "j < n" using 0(4) by (simp add: row_ok_def)
    then show "fst (done ! i) ! j = unit_vec n i ! j"
      using 0(5) i kn by (auto simp: nth_unit_vec)
  qed
  then show ?case using 0(2) kn td by simp
next
  case (Suc m)
  have k: "k < n" using Suc.prems(1) by simp
  show ?case
  proof (cases "find_pivot k todo")
    case None
    from no_pivot_kernel [OF k Suc.prems(2) Suc.prems(4) Suc.prems(5) Suc.prems(6)
        find_pivot_None [OF None] Suc.prems(7)]
    show ?thesis ..
  next
    case (Some t)
    obtain xs p ys where t: "t = (xs, p, ys)" by (cases t)
    from find_pivot_Some [OF Some [unfolded t]]
    have todo: "todo = xs @ p # ys" and piv: "fst p ! k \<noteq> 0" by simp_all
    let ?c = "1 / fst p ! k"
    let ?p = "rscale ?c p"
    let ?done = "map (eliminate k ?p) done @ [?p]"
    let ?todo = "map (eliminate k ?p) (xs @ ys)"
    have ok: "\<forall>q\<in>set (done @ xs @ p # ys). row_ok n q" using Suc.prems(4) todo by simp
    have c: "?c \<noteq> 0" using piv by simp
    have 1: "Suc k + m = n" using Suc.prems(1) by simp
    have 2: "length ?done = Suc k" using Suc.prems(2) by simp
    have 3: "length ?todo = m" using Suc.prems(3) todo by simp
    note 4 = step_row_ok [OF ok, of k ?c]
    have td: "\<forall>q\<in>set (xs @ p # ys). \<forall>j<k. fst q ! j = 0" using Suc.prems(6) todo by simp
    note sh = step_shape [OF Suc.prems(2) k ok Suc.prems(5) td piv]
    have 7: "\<forall>v. length v = n \<longrightarrow> (\<forall>q\<in>set (?done @ ?todo). dot (fst q) v = 0) \<longrightarrow> v = zero_vec n"
    proof (intro allI impI)
      fix v assume v: "length v = n" and z: "\<forall>q\<in>set (?done @ ?todo). dot (fst q) v = 0"
      then have "\<forall>q\<in>set (map (eliminate k ?p) done @ [?p] @ map (eliminate k ?p) (xs @ ys)).
                   dot (fst q) v = 0" by simp
      from step_kernel_fst [OF ok c v this] Suc.prems(7) v todo
      show "v = zero_vec n" by simp
    qed
    from Suc.IH [OF 1 2 3 4 conjunct1 [OF sh] conjunct2 [OF sh] 7]
    show ?thesis using Some t by (simp add: Let_def)
  qed
qed

text \<open>The start of the elimination: the rows of \<open>A\<close> beside the rows of the identity.\<close>

lemma start_nth:
  "i < n \<Longrightarrow> zip (transpose_mat n A) (identity_mat n) ! i = (map (\<lambda>c. c ! i) A, unit_vec n i)"
  by (simp add: transpose_mat_def identity_mat_def)

lemma start_length: "length (zip (transpose_mat n A) (identity_mat n)) = n"
  by (simp add: transpose_mat_def identity_mat_def)

lemma is_mat_nth: "is_mat n m A \<Longrightarrow> j < m \<Longrightarrow> length (A ! j) = n"
  by (simp add: is_mat_def list_all_length)

lemma start_row_ok:
  assumes "is_mat n n A"
  shows "\<forall>q\<in>set ([] @ zip (transpose_mat n A) (identity_mat n)). row_ok n q"
proof -
  have "row_ok n (zip (transpose_mat n A) (identity_mat n) ! i)" if "i < n" for i
    using that assms by (simp add: start_nth row_ok_def is_mat_def)
  then show ?thesis using start_length [of n A] by (auto simp: in_set_conv_nth simp del: set_zip)
qed

lemma start_rel:
  assumes "is_mat n n A"
  shows "\<forall>q\<in>set ([] @ zip (transpose_mat n A) (identity_mat n)).
           \<forall>j<n. fst q ! j = dot (snd q) (A ! j)"
proof -
  have "fst (zip (transpose_mat n A) (identity_mat n) ! i) ! j =
        dot (snd (zip (transpose_mat n A) (identity_mat n) ! i)) (A ! j)" if "i < n" "j < n" for i j
    using that assms is_mat_nth [OF assms that(2)]
    by (simp add: start_nth dot_unit_left is_mat_def)
  then show ?thesis using start_length [of n A] by (auto simp: in_set_conv_nth simp del: set_zip)
qed

lemma start_kernel_fst:
  assumes A: "is_mat n n A" and r: "full_column_rank n A"
  shows "\<forall>v. length v = n \<longrightarrow>
           (\<forall>q\<in>set ([] @ zip (transpose_mat n A) (identity_mat n)). dot (fst q) v = 0) \<longrightarrow>
           v = zero_vec n"
proof (intro allI impI)
  fix v assume v: "length v = n"
    and z: "\<forall>q\<in>set ([] @ zip (transpose_mat n A) (identity_mat n)). dot (fst q) v = 0"
  have "mat_vec n A v = zero_vec n"
  proof (rule nth_equalityI)
    show "length (mat_vec n A v) = length (zero_vec n)" by (simp add: length_mat_vec)
    fix i assume "i < length (mat_vec n A v)"
    then have i: "i < n" by (simp add: length_mat_vec)
    then have "zip (transpose_mat n A) (identity_mat n) ! i \<in>
               set (zip (transpose_mat n A) (identity_mat n))"
      using start_length [of n A] by (metis nth_mem)
    with z have "dot (fst (zip (transpose_mat n A) (identity_mat n) ! i)) v = 0" by simp
    then show "mat_vec n A v ! i = zero_vec n ! i"
      using i by (simp add: start_nth nth_mat_vec nth_zero_vec)
  qed
  with r v A show "v = zero_vec n" by (simp add: full_column_rank_def is_mat_def)
qed

lemma start_kernel_snd:
  assumes v: "length v = n"
    and z: "\<forall>q\<in>set ([] @ zip (transpose_mat n A) (identity_mat n)). dot (snd q) v = 0"
  shows "v = zero_vec n"
proof (rule nth_equalityI)
  show "length v = length (zero_vec n)" using v by simp
  fix i assume "i < length v"
  then have i: "i < n" using v by simp
  then have "zip (transpose_mat n A) (identity_mat n) ! i \<in>
             set (zip (transpose_mat n A) (identity_mat n))"
    using start_length [of n A] by (metis nth_mem)
  with z have "dot (snd (zip (transpose_mat n A) (identity_mat n) ! i)) v = 0" by simp
  then show "v ! i = zero_vec n ! i"
    using i v by (simp add: start_nth dot_unit_left nth_zero_vec)
qed

lemma dot_mat_vec:
  assumes A: "is_mat n m A" and e: "length e = n" and x: "length x = m"
  shows "dot e (mat_vec n A x) = (\<Sum>j<m. x ! j * dot e (A ! j))"
proof -
  have lA: "length A = m" using A by (simp add: is_mat_def)
  have "dot e (mat_vec n A x) = (\<Sum>i<n. e ! i * (\<Sum>j<m. A ! j ! i * x ! j))"
    using e lA x by (simp add: dot_sum length_mat_vec nth_mat_vec_sum)
  also have "\<dots> = (\<Sum>i<n. \<Sum>j<m. x ! j * (e ! i * A ! j ! i))"
    by (simp add: sum_distrib_left mult_ac)
  also have "\<dots> = (\<Sum>j<m. \<Sum>i<n. x ! j * (e ! i * A ! j ! i))"
    by (rule sum.swap)
  also have "\<dots> = (\<Sum>j<m. x ! j * dot e (A ! j))"
    using e is_mat_nth [OF A] by (intro sum.cong) (simp_all add: dot_sum sum_distrib_left)
  finally show ?thesis .
qed

lemma transpose_transpose:
  assumes "is_mat n m E"
  shows "transpose_mat m (transpose_mat n E) = E"
proof (rule nth_equalityI)
  show "length (transpose_mat m (transpose_mat n E)) = length E"
    using assms by (simp add: length_transpose_mat is_mat_def)
  fix j assume "j < length (transpose_mat m (transpose_mat n E))"
  then have j: "j < m" by (simp add: length_transpose_mat)
  have "map (\<lambda>c. c ! j) (transpose_mat n E) = map (\<lambda>i. E ! j ! i) [0..<n]"
    using j assms by (simp add: transpose_mat_def is_mat_def)
  also have "\<dots> = E ! j" using is_mat_nth [OF assms j] by (metis map_nth)
  finally show "transpose_mat m (transpose_mat n E) ! j = E ! j"
    using j by (simp add: nth_transpose_mat)
qed

text \<open>What the elimination returns for a square matrix of full rank.\<close>

lemma gauss_jordan_result:
  assumes A: "is_mat n n A" and r: "full_column_rank n A"
  defines "res \<equiv> gauss_jordan n 0 [] (zip (transpose_mat n A) (identity_mat n))"
  shows "length res = n" "\<forall>q\<in>set res. row_ok n q"
    "\<forall>i<n. \<forall>j<n. dot (snd (res ! i)) (A ! j) = (if i = j then 1 else 0)"
    "\<forall>v. length v = n \<longrightarrow> (\<forall>i<n. dot (snd (res ! i)) v = 0) \<longrightarrow> v = zero_vec n"
proof -
  let ?init = "zip (transpose_mat n A) (identity_mat n)"
  have u: "length res = n \<and> (\<forall>i<n. fst (res ! i) = unit_vec n i)"
    unfolding res_def
    by (rule gauss_jordan_units [OF _ _ start_length start_row_ok [OF A] _ _
          start_kernel_fst [OF A r]]) simp_all
  then show len: "length res = n" by simp
  show ok: "\<forall>q\<in>set res. row_ok n q"
    unfolding res_def by (rule gauss_jordan_row_ok [OF start_row_ok [OF A]])
  have lenA: "\<forall>j<n. length (A ! j) = n" using is_mat_nth [OF A] by simp
  have rel: "\<forall>q\<in>set res. \<forall>j<n. fst q ! j = dot (snd q) (A ! j)"
    unfolding res_def by (rule gauss_jordan_rel [OF start_row_ok [OF A] lenA start_rel [OF A]])
  show "\<forall>i<n. \<forall>j<n. dot (snd (res ! i)) (A ! j) = (if i = j then 1 else 0)"
  proof (intro allI impI)
    fix i j assume i: "i < n" and j: "j < n"
    have "res ! i \<in> set res" using i len by simp
    with rel j have "dot (snd (res ! i)) (A ! j) = fst (res ! i) ! j" by simp
    with u i j show "dot (snd (res ! i)) (A ! j) = (if i = j then 1 else 0)"
      by (auto simp: nth_unit_vec)
  qed
  show "\<forall>v. length v = n \<longrightarrow> (\<forall>i<n. dot (snd (res ! i)) v = 0) \<longrightarrow> v = zero_vec n"
  proof (intro allI impI)
    fix v assume v: "length v = n" and z: "\<forall>i<n. dot (snd (res ! i)) v = 0"
    then have "\<forall>q\<in>set res. dot (snd q) v = 0" using len by (metis in_set_conv_nth)
    from gauss_jordan_kernel_snd [OF start_row_ok [OF A] v this [unfolded res_def]]
    show "v = zero_vec n" by (rule start_kernel_snd [OF v])
  qed
qed

lemma mat_vec_inverse_nth:
  assumes A: "is_mat n n A" and r: "full_column_rank n A" and i: "i < n"
  shows "mat_vec n (inverse_mat n A) v ! i =
         dot (snd (gauss_jordan n 0 [] (zip (transpose_mat n A) (identity_mat n)) ! i)) v"
proof -
  let ?res = "gauss_jordan n 0 [] (zip (transpose_mat n A) (identity_mat n))"
  note R = gauss_jordan_result [OF A r]
  have "is_mat n n (map snd ?res)"
    using R(1,2) by (simp add: is_mat_def list_all_iff row_ok_def)
  then have "transpose_mat n (inverse_mat n A) = map snd ?res"
    unfolding inverse_mat_def by (rule transpose_transpose)
  then show ?thesis using i R(1) by (simp add: mat_vec_def)
qed

text \<open>The inverse is a left inverse: \<open>A\<^sup>-\<^sup>1 * (A * x) = x\<close>.\<close>

lemma inverse_mat_left:
  assumes A: "is_mat n n A" and r: "full_column_rank n A" and x: "length x = n"
  shows "mat_vec n (inverse_mat n A) (mat_vec n A x) = x"
proof (rule nth_equalityI)
  show "length (mat_vec n (inverse_mat n A) (mat_vec n A x)) = length x"
    using x by (simp add: length_mat_vec)
  fix i assume "i < length (mat_vec n (inverse_mat n A) (mat_vec n A x))"
  then have i: "i < n" by (simp add: length_mat_vec)
  let ?e = "snd (gauss_jordan n 0 [] (zip (transpose_mat n A) (identity_mat n)) ! i)"
  note R = gauss_jordan_result [OF A r]
  have e: "length ?e = n" using R(1,2) i by (simp add: row_ok_def)
  have "mat_vec n (inverse_mat n A) (mat_vec n A x) ! i = dot ?e (mat_vec n A x)"
    by (rule mat_vec_inverse_nth [OF A r i])
  also have "\<dots> = (\<Sum>j<n. x ! j * dot ?e (A ! j))" by (rule dot_mat_vec [OF A e x])
  also have "\<dots> = (\<Sum>j<n. if j = i then x ! j else 0)"
    using R(3) i by (intro sum.cong) auto
  also have "\<dots> = x ! i" using i by simp
  finally show "mat_vec n (inverse_mat n A) (mat_vec n A x) ! i = x ! i" .
qed

lemma mat_vec_vsub:
  assumes "length A = m" "length x = m" "length y = m"
  shows "mat_vec n A (vsub x y) = vsub (mat_vec n A x) (mat_vec n A y)"
proof (rule nth_equalityI)
  show "length (mat_vec n A (vsub x y)) = length (vsub (mat_vec n A x) (mat_vec n A y))"
    by (simp add: length_mat_vec)
  fix i assume "i < length (mat_vec n A (vsub x y))"
  then have i: "i < n" by (simp add: length_mat_vec)
  have l: "length (vsub x y) = m" using assms by simp
  have "mat_vec n A (vsub x y) ! i = (\<Sum>j<m. A ! j ! i * vsub x y ! j)"
    by (rule nth_mat_vec_sum [OF i assms(1) l])
  also have "\<dots> = (\<Sum>j<m. A ! j ! i * x ! j - A ! j ! i * y ! j)"
    using assms by (intro sum.cong) (simp_all add: nth_vsub right_diff_distrib)
  also have "\<dots> = (\<Sum>j<m. A ! j ! i * x ! j) - (\<Sum>j<m. A ! j ! i * y ! j)"
    by (rule sum_subtractf)
  also have "\<dots> = mat_vec n A x ! i - mat_vec n A y ! i"
    by (simp only: nth_mat_vec_sum [OF i assms(1) assms(2)] nth_mat_vec_sum [OF i assms(1) assms(3)])
  also have "\<dots> = vsub (mat_vec n A x) (mat_vec n A y) ! i"
    using i by (simp add: nth_vsub length_mat_vec)
  finally show "mat_vec n A (vsub x y) ! i = vsub (mat_vec n A x) (mat_vec n A y) ! i" .
qed

lemma vsub_self: "vsub x x = zero_vec (length x)"
  by (rule nth_equalityI) (simp_all add: nth_vsub nth_zero_vec)

lemma vsub_eq_zero:
  assumes "length x = n" "length y = n" "vsub x y = zero_vec n"
  shows "x = y"
proof (rule nth_equalityI)
  show "length x = length y" using assms by simp
  fix i assume i: "i < length x"
  have "vsub x y ! i = zero_vec n ! i" by (simp only: assms(3))
  then have "x ! i - y ! i = 0" using i assms(1,2) by (simp add: nth_vsub nth_zero_vec)
  then show "x ! i = y ! i" by simp
qed

lemma length_inverse_mat: "length (inverse_mat n A) = n"
  by (simp add: inverse_mat_def length_transpose_mat)

lemma inverse_mat_right:
  assumes A: "is_mat n n A" and r: "full_column_rank n A" and y: "length y = n"
  shows "mat_vec n A (mat_vec n (inverse_mat n A) y) = y"
proof -
  define B where "B = inverse_mat n A"
  define x where "x = mat_vec n B y"
  define y' where "y' = mat_vec n A x"
  define d where "d = vsub y' y"
  note R = gauss_jordan_result [OF A r]
  have lB: "length B = n" by (simp add: B_def length_inverse_mat)
  have lx: "length x = n" by (simp add: x_def length_mat_vec)
  have ly': "length y' = n" by (simp add: y'_def length_mat_vec)
  have ld: "length d = n" using ly' y by (simp add: d_def)
  have "mat_vec n B y' = x"
    unfolding y'_def B_def by (rule inverse_mat_left [OF A r lx])
  moreover have "mat_vec n B d = vsub (mat_vec n B y') (mat_vec n B y)"
    unfolding d_def by (rule mat_vec_vsub [OF lB ly' y])
  ultimately have "mat_vec n B d = vsub x x" by (simp only: x_def)
  then have Bd: "mat_vec n B d = zero_vec n" using lx by (simp only: vsub_self)
  have "dot (snd (gauss_jordan n 0 [] (zip (transpose_mat n A) (identity_mat n)) ! i)) d = 0"
    if i: "i < n" for i
  proof -
    have "mat_vec n B d ! i = 0" using i by (simp only: Bd nth_zero_vec)
    then show ?thesis unfolding B_def by (simp only: mat_vec_inverse_nth [OF A r i])
  qed
  with R(4) ld have "d = zero_vec n" by blast
  then have "y' = y" unfolding d_def by (rule vsub_eq_zero [OF ly' y])
  then show ?thesis by (simp only: y'_def x_def B_def)
qed

section \<open>Matrix products\<close>

lemma mat_vec_mat_mul:
  assumes B: "is_mat k m B" and A: "length A = k" and y: "length y = m"
  shows "mat_vec n (mat_mul n A B) y = mat_vec n A (mat_vec k B y)"
proof (rule nth_equalityI)
  show "length (mat_vec n (mat_mul n A B) y) = length (mat_vec n A (mat_vec k B y))"
    by (simp add: length_mat_vec)
  fix i assume "i < length (mat_vec n (mat_mul n A B) y)"
  then have i: "i < n" by (simp add: length_mat_vec)
  have lB: "length B = m" using B by (simp add: is_mat_def)
  have lAB: "length (mat_mul n A B) = m" using lB by (simp add: mat_mul_def)
  have "mat_vec n (mat_mul n A B) y ! i = (\<Sum>j<m. mat_mul n A B ! j ! i * y ! j)"
    by (rule nth_mat_vec_sum [OF i lAB y])
  also have "\<dots> = (\<Sum>j<m. (\<Sum>l<k. A ! l ! i * B ! j ! l) * y ! j)"
  proof (rule sum.cong [OF refl])
    fix j assume "j \<in> {..<m}"
    then have j: "j < m" by simp
    have "mat_mul n A B ! j ! i = mat_vec n A (B ! j) ! i" using j lB by (simp add: mat_mul_def)
    also have "\<dots> = (\<Sum>l<k. A ! l ! i * B ! j ! l)"
      by (rule nth_mat_vec_sum [OF i A is_mat_nth [OF B j]])
    finally show "mat_mul n A B ! j ! i * y ! j = (\<Sum>l<k. A ! l ! i * B ! j ! l) * y ! j" by simp
  qed
  also have "\<dots> = (\<Sum>j<m. \<Sum>l<k. A ! l ! i * (B ! j ! l * y ! j))"
    by (simp add: sum_distrib_right mult.assoc)
  also have "\<dots> = (\<Sum>l<k. \<Sum>j<m. A ! l ! i * (B ! j ! l * y ! j))"
    by (rule sum.swap)
  also have "\<dots> = (\<Sum>l<k. A ! l ! i * mat_vec k B y ! l)"
  proof (rule sum.cong [OF refl])
    fix l assume "l \<in> {..<k}"
    then have l: "l < k" by simp
    show "(\<Sum>j<m. A ! l ! i * (B ! j ! l * y ! j)) = A ! l ! i * mat_vec k B y ! l"
      by (simp only: nth_mat_vec_sum [OF l lB y] sum_distrib_left)
  qed
  also have "\<dots> = mat_vec n A (mat_vec k B y) ! i"
    by (rule nth_mat_vec_sum [OF i A length_mat_vec, symmetric])
  finally show "mat_vec n (mat_mul n A B) y ! i = mat_vec n A (mat_vec k B y) ! i" .
qed

lemma is_mat_transpose: "length A = m \<Longrightarrow> is_mat m n (transpose_mat n A)"
  by (simp add: is_mat_def transpose_mat_def list_all_iff)

lemma is_mat_mat_mul: "length B = m \<Longrightarrow> is_mat n m (mat_mul n A B)"
  by (simp add: is_mat_def mat_mul_def list_all_iff length_mat_vec)

lemma mat_vec_transpose:
  assumes "is_mat n m A"
  shows "mat_vec m (transpose_mat n A) w = map (\<lambda>c. dot c w) A"
  by (simp only: mat_vec_def transpose_transpose [OF assms])

text \<open>The Gram matrix of independent columns has independent columns.\<close>

lemma gram_full_column_rank:
  assumes J: "is_mat n m J" and r: "full_column_rank n J"
  shows "full_column_rank m (mat_mul m (transpose_mat n J) J)"
  unfolding full_column_rank_def
proof (intro allI impI)
  fix v
  assume "length v = length (mat_mul m (transpose_mat n J) J)"
    and z: "mat_vec m (mat_mul m (transpose_mat n J) J) v = zero_vec m"
  then have v: "length v = m" using J by (simp add: mat_mul_def is_mat_def)
  have lJ: "length J = m" using J by (simp add: is_mat_def)
  define w where "w = mat_vec n J v"
  have lw: "length w = n" by (simp add: w_def length_mat_vec)
  have "mat_vec m (mat_mul m (transpose_mat n J) J) v = mat_vec m (transpose_mat n J) w"
    unfolding w_def
    by (rule mat_vec_mat_mul [OF J _ v]) (simp add: length_transpose_mat)
  then have "map (\<lambda>c. dot c w) J = zero_vec m"
    using z by (simp only: mat_vec_transpose [OF J])
  then have "\<forall>j<m. map (\<lambda>c. dot c w) J ! j = 0" by (simp add: nth_zero_vec)
  then have ortho: "\<forall>j<m. dot w (J ! j) = 0" using lJ by (simp add: dot_commute)
  have "dot w w = (\<Sum>j<m. v ! j * dot w (J ! j))"
    unfolding w_def [symmetric] using dot_mat_vec [OF J lw v] by (simp only: w_def)
  also have "\<dots> = 0" using ortho by simp
  finally have "w = zero_vec n" using dot_self_zero [of w] lw by simp
  then have "v = zero_vec (length J)"
    using r v lJ by (simp add: full_column_rank_def w_def)
  then show "v = zero_vec (length (mat_mul m (transpose_mat n J) J))"
    by (simp add: mat_mul_def)
qed

lemma mat_vec_unit:
  assumes A: "is_mat n m A" and j: "j < m"
  shows "mat_vec n A (unit_vec m j) = A ! j"
proof (rule nth_equalityI)
  show "length (mat_vec n A (unit_vec m j)) = length (A ! j)"
    using is_mat_nth [OF A j] by (simp add: length_mat_vec)
  fix i assume "i < length (mat_vec n A (unit_vec m j))"
  then have i: "i < n" by (simp add: length_mat_vec)
  have lA: "length A = m" using A by (simp add: is_mat_def)
  have "mat_vec n A (unit_vec m j) ! i = (\<Sum>l<m. A ! l ! i * unit_vec m j ! l)"
    by (rule nth_mat_vec_sum [OF i lA length_unit_vec])
  also have "\<dots> = (\<Sum>l<m. if l = j then A ! l ! i else 0)"
    by (intro sum.cong) (simp_all add: nth_unit_vec)
  also have "\<dots> = A ! j ! i" using j by simp
  finally show "mat_vec n A (unit_vec m j) ! i = A ! j ! i" .
qed

lemma mat_vec_zero_vec:
  assumes "length A = m"
  shows "mat_vec n A (zero_vec m) = zero_vec n"
proof (rule nth_equalityI)
  show "length (mat_vec n A (zero_vec m)) = length (zero_vec n)" by (simp add: length_mat_vec)
  fix i assume "i < length (mat_vec n A (zero_vec m))"
  then have i: "i < n" by (simp add: length_mat_vec)
  have "mat_vec n A (zero_vec m) ! i = (\<Sum>l<m. A ! l ! i * zero_vec m ! l)"
    by (rule nth_mat_vec_sum [OF i assms length_zero_vec])
  also have "\<dots> = 0" by (intro sum.neutral) (simp add: nth_zero_vec)
  finally show "mat_vec n A (zero_vec m) ! i = zero_vec n ! i" using i by (simp add: nth_zero_vec)
qed

lemma sum_list_zero_vec: "sum_list (zero_vec n) = 0"
  by (simp add: zero_vec_def sum_list_replicate)

lemma sum_list_unit_vec: "j < n \<Longrightarrow> sum_list (unit_vec n j) = 1"
  by (simp add: unit_vec_def sum_list_sum_nth atLeast0LessThan)

lemma unit_vec_0: "unit_vec (Suc n) 0 = 1 # zero_vec n"
  by (rule nth_equalityI) (auto simp: nth_unit_vec nth_zero_vec nth_Cons')

lemma unit_vec_Suc: "unit_vec (Suc n) (Suc j) = 0 # unit_vec n j"
  by (rule nth_equalityI) (auto simp: nth_unit_vec nth_Cons')

lemma vsub_vadd_cancel:
  "length y = n \<Longrightarrow> length c = n \<Longrightarrow> vsub (vadd y c) c = y"
  by (rule nth_equalityI) (simp_all add: nth_vsub nth_vadd)

lemma vadd_vsub_cancel:
  "length x = n \<Longrightarrow> length c = n \<Longrightarrow> vadd (vsub x c) c = x"
  by (rule nth_equalityI) (simp_all add: nth_vsub nth_vadd)


lemma is_mat_inverse_mat:
  assumes "is_mat n n A" "full_column_rank n A"
  shows "is_mat n n (inverse_mat n A)"
  unfolding inverse_mat_def
  by (rule is_mat_transpose) (simp add: gauss_jordan_result(1) [OF assms])

lemma mat_mul_inverse_left:
  assumes A: "is_mat n n A" and r: "full_column_rank n A"
  shows "mat_mul n (inverse_mat n A) A = identity_mat n"
proof (rule nth_equalityI)
  have lA: "length A = n" using A by (simp add: is_mat_def)
  show "length (mat_mul n (inverse_mat n A) A) = length (identity_mat n)"
    using lA by (simp add: mat_mul_def identity_mat_def)
  fix j assume "j < length (mat_mul n (inverse_mat n A) A)"
  then have j: "j < n" using lA by (simp add: mat_mul_def)
  have "mat_vec n (inverse_mat n A) (mat_vec n A (unit_vec n j)) = unit_vec n j"
    by (rule inverse_mat_left [OF A r length_unit_vec])
  then have "mat_vec n (inverse_mat n A) (A ! j) = unit_vec n j"
    by (simp only: mat_vec_unit [OF A j])
  then show "mat_mul n (inverse_mat n A) A ! j = identity_mat n ! j"
    using j lA by (simp add: mat_mul_def identity_mat_def)
qed

lemma mat_mul_inverse_right:
  assumes A: "is_mat n n A" and r: "full_column_rank n A"
  shows "mat_mul n A (inverse_mat n A) = identity_mat n"
proof (rule nth_equalityI)
  show "length (mat_mul n A (inverse_mat n A)) = length (identity_mat n)"
    by (simp add: mat_mul_def identity_mat_def length_inverse_mat)
  fix j assume "j < length (mat_mul n A (inverse_mat n A))"
  then have j: "j < n" by (simp add: mat_mul_def length_inverse_mat)
  have "mat_vec n A (mat_vec n (inverse_mat n A) (unit_vec n j)) = unit_vec n j"
    by (rule inverse_mat_right [OF A r length_unit_vec])
  then have "mat_vec n A (inverse_mat n A ! j) = unit_vec n j"
    by (simp only: mat_vec_unit [OF is_mat_inverse_mat [OF A r] j])
  then show "mat_mul n A (inverse_mat n A) ! j = identity_mat n ! j"
    using j by (simp add: mat_mul_def identity_mat_def length_inverse_mat)
qed

lemma mat_vec_identity:
  assumes "length v = n"
  shows "mat_vec n (identity_mat n) v = v"
proof (rule nth_equalityI)
  show "length (mat_vec n (identity_mat n) v) = length v" using assms by (simp add: length_mat_vec)
  fix i assume "i < length (mat_vec n (identity_mat n) v)"
  then have i: "i < n" by (simp add: length_mat_vec)
  have "mat_vec n (identity_mat n) v ! i = (\<Sum>j<n. identity_mat n ! j ! i * v ! j)"
    by (rule nth_mat_vec_sum [OF i _ assms]) (simp add: identity_mat_def)
  also have "\<dots> = (\<Sum>j<n. if j = i then v ! j else 0)"
    using i by (intro sum.cong) (auto simp: identity_mat_def nth_unit_vec)
  also have "\<dots> = v ! i" using i by simp
  finally show "mat_vec n (identity_mat n) v ! i = v ! i" .
qed

text \<open>For a square matrix, invertible and of full column rank are the same.\<close>

lemma invertible_full_column_rank:
  assumes A: "is_mat n n A" and inv: "invertible_mat n A"
  shows "full_column_rank n A"
  unfolding full_column_rank_def
proof (intro allI impI)
  fix v assume "length v = length A" and z: "mat_vec n A v = zero_vec n"
  then have v: "length v = n" and lA: "length A = n" using A by (simp_all add: is_mat_def)
  from inv obtain B where B: "is_mat n n B" and BA: "mat_mul n B A = identity_mat n"
    by (auto simp: invertible_mat_def)
  have lB: "length B = n" using B by (simp add: is_mat_def)
  have "v = mat_vec n (mat_mul n B A) v" by (simp only: BA mat_vec_identity [OF v])
  also have "\<dots> = mat_vec n B (mat_vec n A v)" by (rule mat_vec_mat_mul [OF A lB v])
  also have "\<dots> = zero_vec n" by (simp only: z mat_vec_zero_vec [OF lB])
  finally show "v = zero_vec (length A)" by (simp only: lA)
qed

lemma full_column_rank_invertible:
  assumes A: "is_mat n n A" and r: "full_column_rank n A"
  shows "invertible_mat n A"
  unfolding invertible_mat_def
  using is_mat_inverse_mat [OF A r] mat_mul_inverse_left [OF A r] mat_mul_inverse_right [OF A r]
  by blast

section \<open>The cached affine map\<close>

text \<open>The fields that the constructor stores.\<close>

lemma new_Element_fields:
  "local_dimension (new_Element M N i ns cs nb b) = M"
  "embedding_dimension (new_Element M N i ns cs nb b) = N"
  "coords_m (new_Element M N i ns cs nb b) = cs"
  "J_m (new_Element M N i ns cs nb b) = map (\<lambda>j. vsub (cs ! (j + 1)) (cs ! 0)) [0..<M]"
  "inv_J_m (new_Element M N i ns cs nb b) =
     (if N = M then inverse_mat M (J_m (new_Element M N i ns cs nb b))
      else mat_mul M
             (inverse_mat M (mat_mul M (transpose_mat N (J_m (new_Element M N i ns cs nb b)))
                (J_m (new_Element M N i ns cs nb b))))
             (transpose_mat N (J_m (new_Element M N i ns cs nb b))))"
  by (simp_all add: new_Element_def Let_def)

lemma is_mat_J:
  assumes "is_mat N (M + 1) cs"
  shows "is_mat N M (J_m (new_Element M N i ns cs nb b))"
proof -
  have "length (cs ! k) = N" if "k < M + 1" for k by (rule is_mat_nth [OF assms that])
  then show ?thesis
    by (simp add: new_Element_fields is_mat_def list_all_iff)
qed

text \<open>The cached matrix is a left inverse of the barycentric matrix, for volume and
  manifold elements alike.\<close>

lemma inv_J_left:
  assumes cs: "is_mat N (M + 1) cs"
    and r: "full_column_rank N (J_m (new_Element M N i ns cs nb b))"
    and x: "length x = M"
  shows "mat_vec M (inv_J_m (new_Element M N i ns cs nb b))
           (mat_vec N (J_m (new_Element M N i ns cs nb b)) x) = x"
proof -
  define J where "J = J_m (new_Element M N i ns cs nb b)"
  have J: "is_mat N M J" unfolding J_def by (rule is_mat_J [OF cs])
  have lJ: "length J = M" using J by (simp add: is_mat_def)
  have r': "full_column_rank N J" using r by (simp only: J_def)
  show ?thesis
  proof (cases "N = M")
    case True
    have "mat_vec M (inverse_mat M J) (mat_vec M J x) = x"
      using inverse_mat_left [of M J x] J r' x True by simp
    then show ?thesis using True by (simp add: new_Element_fields(5) J_def)
  next
    case False
    define Jt where "Jt = transpose_mat N J"
    define G where "G = mat_mul M Jt J"
    have Jt: "is_mat M N Jt" unfolding Jt_def by (rule is_mat_transpose [OF lJ])
    have G: "is_mat M M G" unfolding G_def by (rule is_mat_mat_mul [OF lJ])
    have rG: "full_column_rank M G"
      unfolding G_def Jt_def by (rule gram_full_column_rank [OF J r'])
    have "mat_vec M (mat_mul M (inverse_mat M G) Jt) (mat_vec N J x) =
          mat_vec M (inverse_mat M G) (mat_vec M Jt (mat_vec N J x))"
      by (rule mat_vec_mat_mul [OF Jt length_inverse_mat length_mat_vec])
    also have "mat_vec M Jt (mat_vec N J x) = mat_vec M G x"
      unfolding G_def
      by (rule mat_vec_mat_mul [OF J _ x, symmetric]) (simp add: Jt_def length_transpose_mat)
    also have "mat_vec M (inverse_mat M G) (mat_vec M G x) = x"
      by (rule inverse_mat_left [OF G rG x])
    finally show ?thesis using False by (simp add: new_Element_fields(5) J_def G_def Jt_def)
  qed
qed

section \<open>The determinant under column operations\<close>

text \<open>Swapping two neighbouring columns negates the determinant.\<close>

lemma laplace_swap_passed:
  assumes d: "\<And>xs a b ys. length (xs @ a # b # ys) = n \<Longrightarrow>
                d (xs @ a # b # ys) = - d (xs @ b # a # ys)"
    and len: "length (p1 @ a # b # p2 @ post) = Suc n"
  shows "laplace d (p1 @ a # b # p2) post = - laplace d (p1 @ b # a # p2) post"
  using len
proof (induction post arbitrary: p2)
  case Nil
  then show ?case by simp
next
  case (Cons c post)
  have "length (map tl p1 @ tl a # tl b # map tl p2 @ map tl post) = n"
    using Cons.prems by simp
  then have e1: "d (map tl p1 @ tl a # tl b # map tl p2 @ map tl post) =
        - d (map tl p1 @ tl b # tl a # map tl p2 @ map tl post)"
    by (rule d)
  have "length (p1 @ a # b # (p2 @ [c]) @ post) = Suc n" using Cons.prems by simp
  then have "laplace d (p1 @ a # b # (p2 @ [c])) post =
        - laplace d (p1 @ b # a # (p2 @ [c])) post"
    by (rule Cons.IH)
  then have e2: "laplace d (p1 @ a # b # p2 @ [c]) post = - laplace d (p1 @ b # a # p2 @ [c]) post"
    by simp
  show ?case by (simp add: e1 e2)
qed

lemma laplace_swap:
  assumes d: "\<And>xs a b ys. length (xs @ a # b # ys) = n \<Longrightarrow>
                d (xs @ a # b # ys) = - d (xs @ b # a # ys)"
    and len: "length (pre @ us @ a # b # vs) = Suc n"
  shows "laplace d pre (us @ a # b # vs) = - laplace d pre (us @ b # a # vs)"
  using len
proof (induction us arbitrary: pre)
  case Nil
  have "laplace d (pre @ a # b # []) vs = - laplace d (pre @ b # a # []) vs"
  proof (rule laplace_swap_passed [where n = n])
    show "d (xs @ a # b # ys) = - d (xs @ b # a # ys)" if "length (xs @ a # b # ys) = n"
      for xs a b ys using that by (rule d)
    show "length (pre @ a # b # [] @ vs) = Suc n" using Nil by simp
  qed
  then have e: "laplace d (pre @ [a, b]) vs = - laplace d (pre @ [b, a]) vs" by simp
  show ?case by (simp add: e)
next
  case (Cons u us)
  have "length (map tl pre @ map tl us @ tl a # tl b # map tl vs) = n"
    using Cons.prems by simp
  then have "d ((map tl pre @ map tl us) @ tl a # tl b # map tl vs) =
        - d ((map tl pre @ map tl us) @ tl b # tl a # map tl vs)"
    by (intro d) simp
  then have e1: "d (map tl pre @ map tl us @ tl a # tl b # map tl vs) =
        - d (map tl pre @ map tl us @ tl b # tl a # map tl vs)" by simp
  have "length ((pre @ [u]) @ us @ a # b # vs) = Suc n" using Cons.prems by simp
  then have e2: "laplace d (pre @ [u]) (us @ a # b # vs) = - laplace d (pre @ [u]) (us @ b # a # vs)"
    by (rule Cons.IH)
  show ?case by (simp add: e1 e2)
qed

lemma determinant_swap:
  "length (us @ a # b # vs) = n \<Longrightarrow>
   determinant n (us @ a # b # vs) = - determinant n (us @ b # a # vs)"
proof (induction n arbitrary: us a b vs)
  case 0
  then show ?case by simp
next
  case (Suc n)
  have "laplace (determinant n) [] (us @ a # b # vs) = - laplace (determinant n) [] (us @ b # a # vs)"
  proof (rule laplace_swap [where n = n])
    show "determinant n (xs @ a # b # ys) = - determinant n (xs @ b # a # ys)"
      if "length (xs @ a # b # ys) = n" for xs a b ys using that by (rule Suc.IH)
    show "length ([] @ us @ a # b # vs) = Suc n" using Suc.prems by simp
  qed
  then show ?case by simp
qed

text \<open>A matrix with two equal columns has determinant zero.\<close>

lemma determinant_equal_columns:
  "length (pre @ a # us @ a # vs) = n \<Longrightarrow> determinant n (pre @ a # us @ a # vs) = 0"
proof (induction us arbitrary: pre)
  case Nil
  from determinant_swap [of pre a a vs n] Nil show ?case by simp
next
  case (Cons u us)
  have "length (pre @ a # u # us @ a # vs) = n" using Cons.prems by simp
  then have "determinant n (pre @ a # u # us @ a # vs) = - determinant n (pre @ u # a # us @ a # vs)"
    by (rule determinant_swap)
  moreover have "determinant n ((pre @ [u]) @ a # us @ a # vs) = 0"
    using Cons.prems by (intro Cons.IH) simp
  ultimately show ?case by simp
qed

text \<open>The determinant is additive in every column.\<close>

lemma tl_vsub: "tl (vsub x a) = vsub (tl x) (tl a)"
  by (cases x; cases a) (simp_all add: vsub_def)

lemma hd_vsub: "x \<noteq> [] \<Longrightarrow> a \<noteq> [] \<Longrightarrow> hd (vsub x a) = hd x - hd a"
  by (cases x; cases a) (simp_all add: vsub_def)

lemma laplace_sub_passed:
  assumes d: "\<And>xs x a ys. length (xs @ x # ys) = n \<Longrightarrow> length x = n \<Longrightarrow> length a = n \<Longrightarrow>
                d (xs @ vsub x a # ys) = d (xs @ x # ys) - d (xs @ a # ys)"
    and len: "length (p1 @ x # p2 @ post) = Suc n" "length x = Suc n" "length a = Suc n"
  shows "laplace d (p1 @ vsub x a # p2) post =
         laplace d (p1 @ x # p2) post - laplace d (p1 @ a # p2) post"
  using len(1)
proof (induction post arbitrary: p2)
  case Nil
  then show ?case by simp
next
  case (Cons c post)
  have "d (map tl p1 @ vsub (tl x) (tl a) # map tl p2 @ map tl post) =
        d (map tl p1 @ tl x # map tl p2 @ map tl post) -
        d (map tl p1 @ tl a # map tl p2 @ map tl post)"
    using Cons.prems len(2,3) by (intro d) simp_all
  then have e1: "hd c * d (map tl p1 @ vsub (tl x) (tl a) # map tl p2 @ map tl post) =
        hd c * d (map tl p1 @ tl x # map tl p2 @ map tl post) -
        hd c * d (map tl p1 @ tl a # map tl p2 @ map tl post)"
    by (simp add: right_diff_distrib)
  have "length (p1 @ x # (p2 @ [c]) @ post) = Suc n" using Cons.prems by simp
  then have "laplace d (p1 @ vsub x a # (p2 @ [c])) post =
        laplace d (p1 @ x # (p2 @ [c])) post - laplace d (p1 @ a # (p2 @ [c])) post"
    by (rule Cons.IH)
  then have e2: "laplace d (p1 @ vsub x a # p2 @ [c]) post =
        laplace d (p1 @ x # p2 @ [c]) post - laplace d (p1 @ a # p2 @ [c]) post" by simp
  show ?case by (simp add: tl_vsub e1 e2)
qed

lemma laplace_sub:
  assumes d: "\<And>xs x a ys. length (xs @ x # ys) = n \<Longrightarrow> length x = n \<Longrightarrow> length a = n \<Longrightarrow>
                d (xs @ vsub x a # ys) = d (xs @ x # ys) - d (xs @ a # ys)"
    and len: "length (pre @ us @ x # vs) = Suc n" "length x = Suc n" "length a = Suc n"
  shows "laplace d pre (us @ vsub x a # vs) =
         laplace d pre (us @ x # vs) - laplace d pre (us @ a # vs)"
  using len(1)
proof (induction us arbitrary: pre)
  case Nil
  have "laplace d (pre @ vsub x a # []) vs =
        laplace d (pre @ x # []) vs - laplace d (pre @ a # []) vs"
  proof (rule laplace_sub_passed [where n = n])
    show "d (xs @ vsub x a # ys) = d (xs @ x # ys) - d (xs @ a # ys)"
      if "length (xs @ x # ys) = n" "length x = n" "length a = n" for xs x a ys
      using that by (rule d)
    show "length (pre @ x # [] @ vs) = Suc n" using Nil by simp
  qed (rule len(2), rule len(3))
  then have e2: "laplace d (pre @ [vsub x a]) vs =
        laplace d (pre @ [x]) vs - laplace d (pre @ [a]) vs" by simp
  have "hd (vsub x a) = hd x - hd a" using len(2,3) by (intro hd_vsub) auto
  then have e1: "hd (vsub x a) * d (map tl pre @ map tl vs) =
      hd x * d (map tl pre @ map tl vs) - hd a * d (map tl pre @ map tl vs)"
    by (simp add: left_diff_distrib)
  show ?case by (simp add: e1 e2)
next
  case (Cons u us)
  have "d ((map tl pre @ map tl us) @ vsub (tl x) (tl a) # map tl vs) =
        d ((map tl pre @ map tl us) @ tl x # map tl vs) -
        d ((map tl pre @ map tl us) @ tl a # map tl vs)"
    using Cons.prems len(2,3) by (intro d) simp_all
  then have e1: "hd u * d (map tl pre @ map tl us @ vsub (tl x) (tl a) # map tl vs) =
        hd u * d (map tl pre @ map tl us @ tl x # map tl vs) -
        hd u * d (map tl pre @ map tl us @ tl a # map tl vs)"
    by (simp add: right_diff_distrib)
  have "length ((pre @ [u]) @ us @ x # vs) = Suc n" using Cons.prems by simp
  then have e2: "laplace d (pre @ [u]) (us @ vsub x a # vs) =
        laplace d (pre @ [u]) (us @ x # vs) - laplace d (pre @ [u]) (us @ a # vs)"
    by (rule Cons.IH)
  show ?case by (simp add: tl_vsub e1 e2)
qed

lemma determinant_sub:
  "length (us @ x # vs) = n \<Longrightarrow> length x = n \<Longrightarrow> length a = n \<Longrightarrow>
   determinant n (us @ vsub x a # vs) = determinant n (us @ x # vs) - determinant n (us @ a # vs)"
proof (induction n arbitrary: us x a vs)
  case 0
  then show ?case by simp
next
  case (Suc n)
  have "laplace (determinant n) [] (us @ vsub x a # vs) =
        laplace (determinant n) [] (us @ x # vs) - laplace (determinant n) [] (us @ a # vs)"
  proof (rule laplace_sub [where n = n])
    show "determinant n (xs @ vsub x a # ys) =
        determinant n (xs @ x # ys) - determinant n (xs @ a # ys)"
      if "length (xs @ x # ys) = n" "length x = n" "length a = n" for xs x a ys
      using that by (rule Suc.IH)
    show "length ([] @ us @ x # vs) = Suc n" using Suc.prems by simp
  qed (rule Suc.prems(2), rule Suc.prems(3))
  then show ?case by simp
qed

lemma determinant_zero_column:
  assumes "length (us @ zero_vec n # vs) = n"
  shows "determinant n (us @ zero_vec n # vs) = 0"
proof -
  have "determinant n (us @ vsub (zero_vec n) (zero_vec n) # vs) =
        determinant n (us @ zero_vec n # vs) - determinant n (us @ zero_vec n # vs)"
    using assms by (intro determinant_sub) simp_all
  moreover have "vsub (zero_vec n) (zero_vec n) = zero_vec n"
    using vsub_self [of "zero_vec n"] by simp
  ultimately show ?thesis by simp
qed

text \<open>Subtracting the first column from the columns after some point leaves the
  determinant as it is.\<close>

lemma determinant_sub_first:
  assumes "length (a # us @ vs) = n" "length a = n" "\<forall>y\<in>set vs. length y = n"
  shows "determinant n (a # us @ map (\<lambda>y. vsub y a) vs) = determinant n (a # us @ vs)"
  using assms
proof (induction vs arbitrary: us)
  case Nil
  then show ?case by simp
next
  case (Cons y vs)
  let ?w = "map (\<lambda>y. vsub y a) vs"
  have "determinant n ((a # us) @ vsub y a # ?w) =
        determinant n ((a # us) @ y # ?w) - determinant n ((a # us) @ a # ?w)"
    using Cons.prems by (intro determinant_sub) simp_all
  moreover have "determinant n ([] @ a # us @ a # ?w) = 0"
    using Cons.prems by (intro determinant_equal_columns) simp
  moreover have "determinant n (a # (us @ [y]) @ ?w) = determinant n (a # (us @ [y]) @ vs)"
    using Cons.prems by (intro Cons.IH) simp_all
  ultimately show ?case by simp
qed

text \<open>The barycentric matrix in terms of the first vertex and the others.\<close>

lemma J_map:
  assumes "length cs = M + 1"
  shows "J_m (new_Element M N i ns cs nb b) = map (\<lambda>c. vsub c (hd cs)) (tl cs)"
proof (rule nth_equalityI)
  show "length (J_m (new_Element M N i ns cs nb b)) = length (map (\<lambda>c. vsub c (hd cs)) (tl cs))"
    using assms by (simp add: new_Element_fields(4))
  fix j assume "j < length (J_m (new_Element M N i ns cs nb b))"
  then have j: "j < M" by (simp add: new_Element_fields(4))
  have "cs \<noteq> []" using assms by auto
  then have "hd cs = cs ! 0" by (simp add: hd_conv_nth)
  moreover have "tl cs ! j = cs ! (j + 1)" using j assms by (simp add: nth_tl)
  ultimately show "J_m (new_Element M N i ns cs nb b) ! j = map (\<lambda>c. vsub c (hd cs)) (tl cs) ! j"
    using j assms by (simp add: new_Element_fields(4))
qed

text \<open>Exchanging the reference vertex with the next one negates the determinant.\<close>

lemma determinant_swap_reference:
  assumes len: "length (c1 # rest) = n" and c0: "length c0 = n" and c1: "length c1 = n"
    and rest: "\<forall>c\<in>set rest. length c = n"
  shows "determinant n (vsub c0 c1 # map (\<lambda>c. vsub c c1) rest) =
         - determinant n (vsub c1 c0 # map (\<lambda>c. vsub c c0) rest)"
proof -
  define a where "a = vsub c1 c0"
  define R where "R = map (\<lambda>c. vsub c c0) rest"
  have la: "length a = n" using c0 c1 by (simp add: a_def)
  have lR: "\<forall>y\<in>set R. length y = n" using rest c0 by (simp add: R_def)
  have first: "vsub c0 c1 = vsub (zero_vec n) a"
    by (rule nth_equalityI) (simp_all add: a_def c0 c1 nth_vsub nth_zero_vec)
  have "vsub c c1 = vsub (vsub c c0) a" if "c \<in> set rest" for c
  proof (rule nth_equalityI)
    have lc: "length c = n" using rest that by simp
    show "length (vsub c c1) = length (vsub (vsub c c0) a)" using lc c0 c1 la by simp
    fix k assume "k < length (vsub c c1)"
    then have "k < n" using lc c1 by simp
    then show "vsub c c1 ! k = vsub (vsub c c0) a ! k"
      using lc c0 c1 by (simp add: a_def nth_vsub)
  qed
  then have others: "map (\<lambda>c. vsub c c1) rest = map (\<lambda>y. vsub y a) R"
    by (simp add: R_def)
  have "determinant n ([] @ vsub (zero_vec n) a # map (\<lambda>y. vsub y a) R) =
        determinant n ([] @ zero_vec n # map (\<lambda>y. vsub y a) R) -
        determinant n ([] @ a # map (\<lambda>y. vsub y a) R)"
    using len la by (intro determinant_sub) (simp_all add: R_def)
  moreover have "determinant n ([] @ zero_vec n # map (\<lambda>y. vsub y a) R) = 0"
    using len by (intro determinant_zero_column) (simp add: R_def)
  moreover have "determinant n (a # [] @ map (\<lambda>y. vsub y a) R) = determinant n (a # [] @ R)"
    using len la lR by (intro determinant_sub_first) (simp_all add: R_def)
  ultimately show ?thesis by (simp add: first others a_def R_def)
qed

lemma norm_vec_vsub_commute: "norm_vec (vsub a b) = norm_vec (vsub b a)"
proof -
  have "dot (vsub a b) (vsub a b) = dot (vsub b a) (vsub b a)"
    by (simp add: dot_sum nth_vsub min.commute) (intro sum.cong, simp_all add: algebra_simps nth_vsub)
  then show ?thesis by (simp add: norm_vec_def)
qed

lemma cross_swap_reference:
  assumes "length c0 = 3" "length c1 = 3" "length c2 = 3"
  shows "norm_vec (cross (vsub c0 c1) (vsub c2 c1)) = norm_vec (cross (vsub c1 c0) (vsub c2 c0))"
proof -
  from assms obtain x0 y0 z0 x1 y1 z1 x2 y2 z2 where
    c: "c0 = [x0, y0, z0]" "c1 = [x1, y1, z1]" "c2 = [x2, y2, z2]"
    by (auto simp: length_Suc_conv numeral_3_eq_3)
  have "dot (cross (vsub c0 c1) (vsub c2 c1)) (cross (vsub c0 c1) (vsub c2 c1)) =
        dot (cross (vsub c1 c0) (vsub c2 c0)) (cross (vsub c1 c0) (vsub c2 c0))"
    unfolding c by (simp add: vsub_def dot_def) algebra
  then show ?thesis by (simp add: norm_vec_def)
qed

lemma cross_swap_others:
  assumes "length c0 = 3" "length c1 = 3" "length c2 = 3"
  shows "norm_vec (cross (vsub c2 c0) (vsub c1 c0)) = norm_vec (cross (vsub c1 c0) (vsub c2 c0))"
proof -
  from assms obtain x0 y0 z0 x1 y1 z1 x2 y2 z2 where
    c: "c0 = [x0, y0, z0]" "c1 = [x1, y1, z1]" "c2 = [x2, y2, z2]"
    by (auto simp: length_Suc_conv numeral_3_eq_3)
  have "dot (cross (vsub c2 c0) (vsub c1 c0)) (cross (vsub c2 c0) (vsub c1 c0)) =
        dot (cross (vsub c1 c0) (vsub c2 c0)) (cross (vsub c1 c0) (vsub c2 c0))"
    unfolding c by (simp add: vsub_def dot_def) algebra
  then show ?thesis by (simp add: norm_vec_def)
qed

text \<open>A function of a list that does not change when two neighbours are exchanged does
  not change under any permutation.\<close>

lemma bubble_invariant:
  assumes sw: "\<And>us a b vs. mset (us @ a # b # vs) = mset xs \<Longrightarrow>
                 f (us @ a # b # vs) = f (us @ b # a # vs)"
    and "mset (pre @ us @ z # vs) = mset xs"
  shows "f (pre @ us @ z # vs) = f (pre @ z # us @ vs)"
  using assms(2)
proof (induction us arbitrary: pre)
  case Nil
  then show ?case by simp
next
  case (Cons u us)
  have "f ((pre @ [u]) @ us @ z # vs) = f ((pre @ [u]) @ z # us @ vs)"
    using Cons.prems by (intro Cons.IH) simp
  moreover have "f (pre @ u # z # (us @ vs)) = f (pre @ z # u # (us @ vs))"
    using Cons.prems by (intro sw) simp
  ultimately show ?case by simp
qed

lemma permutation_invariant_aux:
  assumes sw: "\<And>us a b vs. mset (us @ a # b # vs) = mset xs \<Longrightarrow>
                 f (us @ a # b # vs) = f (us @ b # a # vs)"
  shows "mset (pre @ zs) = mset xs \<Longrightarrow> mset ys = mset zs \<Longrightarrow> f (pre @ ys) = f (pre @ zs)"
proof (induction zs arbitrary: pre ys)
  case Nil
  then show ?case by simp
next
  case (Cons z zs)
  have "z \<in> set ys" using Cons.prems(2) by (metis list.set_intros(1) mset_eq_setD)
  then obtain us vs where ys: "ys = us @ z # vs" by (auto dest: split_list)
  have m: "mset (us @ vs) = mset zs" using Cons.prems(2) ys by simp
  have mx: "mset (pre @ us @ z # vs) = mset xs" using Cons.prems ys by simp
  have "f (pre @ us @ z # vs) = f (pre @ z # us @ vs)"
  proof (rule bubble_invariant [where xs = xs])
    show "f (us @ a # b # vs) = f (us @ b # a # vs)"
      if "mset (us @ a # b # vs) = mset xs" for us a b vs using that by (rule sw)
    show "mset (pre @ us @ z # vs) = mset xs" by (rule mx)
  qed
  moreover have "f ((pre @ [z]) @ (us @ vs)) = f ((pre @ [z]) @ zs)"
    using Cons.prems(1) m by (intro Cons.IH) simp_all
  ultimately show ?case using ys by simp
qed

lemma permutation_invariant:
  assumes "\<And>us a b vs. mset (us @ a # b # vs) = mset xs \<Longrightarrow>
             f (us @ a # b # vs) = f (us @ b # a # vs)"
    and "mset ys = mset xs"
  shows "f ys = f xs"
proof -
  have "f ([] @ ys) = f ([] @ xs)"
  proof (rule permutation_invariant_aux [where xs = xs])
    show "f (us @ a # b # vs) = f (us @ b # a # vs)"
      if "mset (us @ a # b # vs) = mset xs" for us a b vs using that by (rule assms(1))
    show "mset ([] @ xs) = mset xs" by simp
    show "mset ys = mset xs" by (rule assms(2))
  qed
  then show ?thesis by simp
qed

section \<open>Evaluation in double precision\<close>

lemma ulp_down_numeral:
  "ulp_down (numeral n) x u =
     (if x = 0 \<or> 4503599627370496 \<le> x then u else ulp_down (pred_numeral n) (2 * x) (u / 2))"
  by (simp add: numeral_eq_Suc)

lemma ulp_up_numeral:
  "ulp_up (numeral n) x u =
     (if x < 9007199254740992 then u else ulp_up (pred_numeral n) (x / 2) (2 * u))"
  by (simp add: numeral_eq_Suc)

text \<open>\<open>fl\<close> at a literal, so that evaluation rounds a number only once it is known.\<close>

lemma fl_literal:
  "fl 0 = 0"
  "fl 1 = of_int (rne (1 / ulp 1)) * ulp 1"
  "fl (- 1) = of_int (rne (- 1 / ulp (- 1))) * ulp (- 1)"
  "fl (numeral a) = of_int (rne (numeral a / ulp (numeral a))) * ulp (numeral a)"
  "fl (- numeral a) = of_int (rne (- numeral a / ulp (- numeral a))) * ulp (- numeral a)"
  "fl (numeral a / numeral b) =
     of_int (rne (numeral a / numeral b / ulp (numeral a / numeral b))) * ulp (numeral a / numeral b)"
  "fl (- (numeral a / numeral b)) =
     of_int (rne (- (numeral a / numeral b) / ulp (- (numeral a / numeral b)))) *
       ulp (- (numeral a / numeral b))"
  "fl (1 / numeral b) = of_int (rne (1 / numeral b / ulp (1 / numeral b))) * ulp (1 / numeral b)"
  "fl (- (1 / numeral b)) =
     of_int (rne (- (1 / numeral b) / ulp (- (1 / numeral b)))) * ulp (- (1 / numeral b))"
  by (simp_all only: fl_def) (simp add: rne_def)

lemmas fl_eval = fl_literal ulp_def rne_def Let_def ulp_down_numeral ulp_up_numeral

lemmas fl_ops = vadd_fl_def vsub_fl_def smult_fl_def sum_fl_def dot_fl_def mat_vec_fl_def
  mat_mul_fl_def transpose_mat_def rscale_fl_def eliminate_fl_def inverse_mat_fl_def
  identity_mat_def unit_vec_def

lemma new_Element_fl_fields:
  "local_dimension (new_Element_fl M N i ns cs nb b) = M"
  "embedding_dimension (new_Element_fl M N i ns cs nb b) = N"
  "coords_m (new_Element_fl M N i ns cs nb b) = cs"
  "J_m (new_Element_fl M N i ns cs nb b) = map (\<lambda>j. vsub_fl (cs ! (j + 1)) (cs ! 0)) [0..<M]"
  "inv_J_m (new_Element_fl M M i ns cs nb b) =
     inverse_mat_fl M (J_m (new_Element_fl M M i ns cs nb b))"
  by (simp_all add: new_Element_fl_def Let_def)

section \<open>The identifier\<close>

text \<open>
  C10. \<open>ID()\<close> returns the stored \<open>std::size_t\<close> identifier converted to
  \<open>unsigned int\<close>: the identifier the element was constructed with, reduced modulo
  \<open>2^32\<close>. It is that identifier exactly when the identifier is below \<open>2^32\<close>.
\<close>

theorem ID_truncates:
  "unat (ID (new_Element M N i ns cs nb b)) = unat i mod 2 ^ 32 \<and>
   (unat (ID (new_Element M N i ns cs nb b)) = unat i \<longleftrightarrow> unat i < 2 ^ 32)"
proof -
  have sel: "ID_m (new_Element M N i ns cs nb b) = i"
    by (simp add: new_Element_def Let_def)
  have red: "unat (ID (new_Element M N i ns cs nb b)) = unat i mod 2 ^ 32"
    by (simp add: ID_def sel unsigned_ucast_eq take_bit_eq_mod)
  have "unat i mod 2 ^ 32 = unat i \<longleftrightarrow> unat i < 2 ^ 32"
    by (metis mod_less mod_less_divisor zero_less_numeral zero_less_power)
  with red show ?thesis by simp
qed

theorem ID_truncates_witness:
  "unat (ID (new_Element 1 2 (2 ^ 32 + 7) [1, 2] [[0, 0], [2, 0]] [] False)) = 7 \<and>
   unat (ID (new_Element 1 2 7 [1, 2] [[0, 0], [2, 0]] [] False)) = 7"
  using ID_truncates [of 1 2 "2 ^ 32 + 7" "[1, 2]" "[[0, 0], [2, 0]]" "[]" False]
    ID_truncates [of 1 2 7 "[1, 2]" "[[0, 0], [2, 0]]" "[]" False]
  by simp

section \<open>Barycentric coordinates\<close>

lemma length_to_barycentric_coords:
  "length (to_barycentric_coords e x) = local_dimension e + 1"
  by (simp add: to_barycentric_coords_def Let_def length_mat_vec)

lemma list_all_nth_le:
  "length xs = n + 1 \<Longrightarrow> list_all P xs \<longleftrightarrow> (\<forall>i\<le>n. P (xs ! i))"
  by (auto simp: list_all_length less_Suc_eq_le)

text \<open>
  C5. \<open>to_barycentric_coords(x)\<close> is the vector of \<open>M + 1\<close> entries whose first entry
  is one minus the sum of \<open>z\<close> and whose other entries are \<open>z\<close>, for
  \<open>z = inv_J_ * (x - coords_[0])\<close>; its entries sum to one.
\<close>

theorem to_barycentric_coords_sum:
  "to_barycentric_coords e x =
     (1 - sum_list (mat_vec (local_dimension e) (inv_J_m e) (vsub x (coords_m e ! 0)))) #
       mat_vec (local_dimension e) (inv_J_m e) (vsub x (coords_m e ! 0)) \<and>
   length (to_barycentric_coords e x) = local_dimension e + 1 \<and>
   sum_list (to_barycentric_coords e x) = 1"
  by (simp add: to_barycentric_coords_def Let_def length_mat_vec)

text \<open>
  C1. For a volume element (\<open>M = N\<close>), \<open>contains(x)\<close> holds exactly when every one of
  the \<open>M + 1\<close> entries of \<open>to_barycentric_coords(x)\<close> is at least \<open>-10\<close> times the
  machine epsilon.
\<close>

theorem contains_volume_iff:
  assumes "embedding_dimension e = local_dimension e"
  shows "contains distance e x \<longleftrightarrow>
    (\<forall>i\<le>local_dimension e. to_barycentric_coords e x ! i \<ge> - 10 * epsilon)"
  using assms list_all_nth_le [OF length_to_barycentric_coords, of "\<lambda>b. b \<ge> - 10 * epsilon" e x]
  by (simp add: contains_def contains_volume_def)

theorem contains_volume_iff_witness:
  "embedding_dimension (new_Element 2 2 5 [1, 2, 3] [[0, 0], [1, 0], [0, 1]] [] False) =
     local_dimension (new_Element 2 2 5 [1, 2, 3] [[0, 0], [1, 0], [0, 1]] [] False) \<and>
   to_barycentric_coords (new_Element 2 2 5 [1, 2, 3] [[0, 0], [1, 0], [0, 1]] [] False)
     [1 / 2, 1 / 2] = [0, 1 / 2, 1 / 2] \<and>
   contains (\<lambda>vs x. 0) (new_Element 2 2 5 [1, 2, 3] [[0, 0], [1, 0], [0, 1]] [] False)
     [1 / 2, 1 / 2] \<and>
   to_barycentric_coords (new_Element 2 2 5 [1, 2, 3] [[0, 0], [1, 0], [0, 1]] [] False)
     [3 / 5, 3 / 5] = [- 1 / 5, 3 / 5, 3 / 5] \<and>
   \<not> contains (\<lambda>vs x. 0) (new_Element 2 2 5 [1, 2, 3] [[0, 0], [1, 0], [0, 1]] [] False)
     [3 / 5, 3 / 5]"
proof -
  let ?e = "new_Element 2 2 5 [1, 2, 3] [[0, 0], [1, 0], [0, 1]] [] False"
  have dims: "embedding_dimension ?e = local_dimension ?e" "local_dimension ?e = 2"
    by (simp_all add: new_Element_def Let_def)
  have bary: "to_barycentric_coords ?e [1 / 2, 1 / 2] = [0, 1 / 2, 1 / 2]"
    by (simp add: element_defs numeral_2_eq_2)
  have bary': "to_barycentric_coords ?e [3 / 5, 3 / 5] = [- 1 / 5, 3 / 5, 3 / 5]"
    by (simp add: element_defs numeral_2_eq_2)
  have "\<forall>i\<le>2. to_barycentric_coords ?e [1 / 2, 1 / 2] ! i \<ge> - 10 * epsilon"
    unfolding bary by (auto simp: epsilon_def le_Suc_eq numeral_2_eq_2 nth_Cons')
  then have inside: "contains (\<lambda>vs x. 0) ?e [1 / 2, 1 / 2]"
    using contains_volume_iff [OF dims(1), of "\<lambda>vs x. 0" "[1 / 2, 1 / 2]"] dims(2) by simp
  have "\<not> to_barycentric_coords ?e [3 / 5, 3 / 5] ! 0 \<ge> - 10 * epsilon"
    by (simp add: bary' epsilon_def)
  then have outside: "\<not> contains (\<lambda>vs x. 0) ?e [3 / 5, 3 / 5]"
    using contains_volume_iff [OF dims(1), of "\<lambda>vs x. 0" "[3 / 5, 3 / 5]"] by blast
  show ?thesis using dims(1) bary bary' inside outside by simp
qed

text \<open>
  C2. For a manifold element (\<open>N \<noteq> M\<close>, which the element's use restricts to
  \<open>M < N\<close>), \<open>contains(x)\<close> is false whenever the distance from \<open>x\<close> to the space
  spanned by the element (basis \<open>coords_[i + 1] - coords_[0]\<close>, offset \<open>coords_[0]\<close>)
  exceeds \<open>10\<close> times the machine epsilon; otherwise it holds exactly when every entry
  of \<open>to_barycentric_coords(x)\<close> is at least \<open>-10\<close> times the machine epsilon.
\<close>

theorem contains_manifold_iff:
  assumes "embedding_dimension e \<noteq> local_dimension e"
  shows "(distance (spanned_space e) x > 10 * epsilon \<longrightarrow> \<not> contains distance e x) \<and>
    (\<not> distance (spanned_space e) x > 10 * epsilon \<longrightarrow>
       (contains distance e x \<longleftrightarrow>
          (\<forall>i\<le>local_dimension e. to_barycentric_coords e x ! i \<ge> - 10 * epsilon))) \<and>
    offset (spanned_space e) = coords_m e ! 0 \<and>
    length (basis (spanned_space e)) = local_dimension e \<and>
    (\<forall>i<local_dimension e.
       basis (spanned_space e) ! i = vsub (coords_m e ! (i + 1)) (coords_m e ! 0))"
  using assms list_all_nth_le [OF length_to_barycentric_coords, of "\<lambda>b. b \<ge> - 10 * epsilon" e x]
  by (simp add: contains_def contains_manifold_def Let_def spanned_space_def)

theorem contains_manifold_iff_witness:
  "embedding_dimension
     (new_Element 2 3 5 [1, 2, 3] [[0, 0, 0], [1, 0, 0], [0, 1, 0]] [] False) \<noteq>
   local_dimension
     (new_Element 2 3 5 [1, 2, 3] [[0, 0, 0], [1, 0, 0], [0, 1, 0]] [] False) \<and>
   \<not> contains (\<lambda>vs x. \<bar>x ! 2 - offset vs ! 2\<bar>)
     (new_Element 2 3 5 [1, 2, 3] [[0, 0, 0], [1, 0, 0], [0, 1, 0]] [] False) [0, 0, 1] \<and>
   to_barycentric_coords
     (new_Element 2 3 5 [1, 2, 3] [[0, 0, 0], [1, 0, 0], [0, 1, 0]] [] False) [1 / 4, 1 / 4, 0] =
     [1 / 2, 1 / 4, 1 / 4] \<and>
   contains (\<lambda>vs x. \<bar>x ! 2 - offset vs ! 2\<bar>)
     (new_Element 2 3 5 [1, 2, 3] [[0, 0, 0], [1, 0, 0], [0, 1, 0]] [] False) [1 / 4, 1 / 4, 0] \<and>
   basis (spanned_space
     (new_Element 2 3 5 [1, 2, 3] [[0, 0, 0], [1, 0, 0], [0, 1, 0]] [] False)) ! 1 = [0, 1, 0]"
proof -
  let ?e = "new_Element 2 3 5 [1, 2, 3] [[0, 0, 0], [1, 0, 0], [0, 1, 0]] [] False"
  let ?d = "\<lambda>vs x. \<bar>x ! 2 - offset vs ! (2::nat)\<bar> :: real"
  have dims: "embedding_dimension ?e \<noteq> local_dimension ?e" "local_dimension ?e = 2"
    and cs: "coords_m ?e = [[0, 0, 0], [1, 0, 0], [0, 1, 0]]"
    by (simp_all add: new_Element_def Let_def)
  have far: "?d (spanned_space ?e) [0, 0, 1] > 10 * epsilon"
    by (simp add: spanned_space_def cs epsilon_def)
  have near: "\<not> ?d (spanned_space ?e) [1 / 4, 1 / 4, 0] > 10 * epsilon"
    by (simp add: spanned_space_def cs epsilon_def)
  have bary: "to_barycentric_coords ?e [1 / 4, 1 / 4, 0] = [1 / 2, 1 / 4, 1 / 4]"
    by (simp add: element_defs numeral_2_eq_2 numeral_3_eq_3)
  have all: "\<forall>i\<le>2. to_barycentric_coords ?e [1 / 4, 1 / 4, 0] ! i \<ge> - 10 * epsilon"
    unfolding bary by (auto simp: epsilon_def le_Suc_eq numeral_2_eq_2 nth_Cons')
  note manifold = contains_manifold_iff [OF dims(1), of ?d]
  have outside: "\<not> contains ?d ?e [0, 0, 1]"
    using manifold [of "[0, 0, 1]"] far by blast
  have inside: "contains ?d ?e [1 / 4, 1 / 4, 0]"
    using manifold [of "[1 / 4, 1 / 4, 0]"] near all dims(2) by simp
  have "basis (spanned_space ?e) ! 1 = vsub (coords_m ?e ! (1 + 1)) (coords_m ?e ! 0)"
    using manifold [of "[0, 0, 1]"] dims(2) by simp
  then have b1: "basis (spanned_space ?e) ! 1 = [0, 1, 0]"
    by (simp add: cs vsub_def)
  show ?thesis using dims(1) outside bary inside b1 by simp
qed

section \<open>The affine map and its inverse\<close>

text \<open>
  C3. The constructor stores, as column \<open>j\<close> of \<open>J_\<close>, the difference
  \<open>coords_[j + 1] - coords_[0]\<close> for every \<open>j < M\<close>. For \<open>N = M\<close> it stores
  \<open>J_.inverse()\<close> in \<open>inv_J_\<close>, which is the inverse of \<open>J_\<close> on both sides when the
  columns of \<open>J_\<close> are independent; for \<open>N \<noteq> M\<close> it stores
  \<open>(J_\<^sup>T J_)\<^sup>-\<^sup>1 J_\<^sup>T\<close>, where the first factor is the inverse of \<open>J_\<^sup>T J_\<close> and the whole
  a left inverse of \<open>J_\<close> when the columns of \<open>J_\<close> are independent. The getters return
  the stored matrices; no operation of the element computes them again.
\<close>

theorem constructor_caches_affine_map:
  assumes cs: "is_mat N (M + 1) cs"
  shows "length (J_m (new_Element M N i ns cs nb b)) = M \<and>
    (\<forall>j<M. J_m (new_Element M N i ns cs nb b) ! j = vsub (cs ! (j + 1)) (cs ! 0)) \<and>
    (N = M \<longrightarrow>
       inv_J_m (new_Element M N i ns cs nb b) =
         inverse_mat M (J_m (new_Element M N i ns cs nb b)) \<and>
       (full_column_rank N (J_m (new_Element M N i ns cs nb b)) \<longrightarrow>
          mat_mul M (inv_J_m (new_Element M N i ns cs nb b)) (J_m (new_Element M N i ns cs nb b)) =
            identity_mat M \<and>
          mat_mul M (J_m (new_Element M N i ns cs nb b)) (inv_J_m (new_Element M N i ns cs nb b)) =
            identity_mat M)) \<and>
    (N \<noteq> M \<longrightarrow>
       inv_J_m (new_Element M N i ns cs nb b) =
         mat_mul M
           (inverse_mat M (mat_mul M (transpose_mat N (J_m (new_Element M N i ns cs nb b)))
              (J_m (new_Element M N i ns cs nb b))))
           (transpose_mat N (J_m (new_Element M N i ns cs nb b))) \<and>
       (full_column_rank N (J_m (new_Element M N i ns cs nb b)) \<longrightarrow>
          mat_mul M
            (inverse_mat M (mat_mul M (transpose_mat N (J_m (new_Element M N i ns cs nb b)))
               (J_m (new_Element M N i ns cs nb b))))
            (mat_mul M (transpose_mat N (J_m (new_Element M N i ns cs nb b)))
               (J_m (new_Element M N i ns cs nb b))) = identity_mat M \<and>
          mat_mul M (inv_J_m (new_Element M N i ns cs nb b)) (J_m (new_Element M N i ns cs nb b)) =
            identity_mat M)) \<and>
    barycentric_matrix (new_Element M N i ns cs nb b) = J_m (new_Element M N i ns cs nb b) \<and>
    inv_barycentric_matrix (new_Element M N i ns cs nb b) = inv_J_m (new_Element M N i ns cs nb b)"
proof -
  define e where "e = new_Element M N i ns cs nb b"
  define G where "G = mat_mul M (transpose_mat N (J_m e)) (J_m e)"
  have J: "is_mat N M (J_m e)" unfolding e_def by (rule is_mat_J [OF cs])
  have lJ: "length (J_m e) = M" using J by (simp add: is_mat_def)
  have cols: "\<forall>j<M. J_m e ! j = vsub (cs ! (j + 1)) (cs ! 0)"
    by (simp add: e_def new_Element_fields(4))
  have inv: "inv_J_m e = (if N = M then inverse_mat M (J_m e)
      else mat_mul M (inverse_mat M G) (transpose_mat N (J_m e)))"
    unfolding G_def e_def by (rule new_Element_fields(5))
  have inv_vol: "N = M \<Longrightarrow> inv_J_m e = inverse_mat M (J_m e)"
    and inv_man: "N \<noteq> M \<Longrightarrow>
      inv_J_m e = mat_mul M (inverse_mat M G) (transpose_mat N (J_m e))"
    using inv by simp_all
  have left: "mat_mul M (inv_J_m e) (J_m e) = identity_mat M" if r: "full_column_rank N (J_m e)"
  proof (rule nth_equalityI)
    show "length (mat_mul M (inv_J_m e) (J_m e)) = length (identity_mat M)"
      using lJ by (simp add: mat_mul_def identity_mat_def)
    fix j assume "j < length (mat_mul M (inv_J_m e) (J_m e))"
    then have j: "j < M" using lJ by (simp add: mat_mul_def)
    have "mat_vec M (inv_J_m e) (mat_vec N (J_m e) (unit_vec M j)) = unit_vec M j"
      unfolding e_def
      by (rule inv_J_left [OF cs r [unfolded e_def] length_unit_vec])
    then have "mat_vec M (inv_J_m e) (J_m e ! j) = unit_vec M j"
      by (simp only: mat_vec_unit [OF J j])
    then show "mat_mul M (inv_J_m e) (J_m e) ! j = identity_mat M ! j"
      using j lJ by (simp add: mat_mul_def identity_mat_def)
  qed
  have right: "mat_mul M (J_m e) (inv_J_m e) = identity_mat M"
    if "N = M" "full_column_rank N (J_m e)"
    using that J inv_vol mat_mul_inverse_right [of M "J_m e"] by simp
  have gram: "mat_mul M (inverse_mat M G) G = identity_mat M" if r: "full_column_rank N (J_m e)"
    unfolding G_def
    by (rule mat_mul_inverse_left [OF is_mat_mat_mul [OF lJ] gram_full_column_rank [OF J r]])
  have get: "barycentric_matrix e = J_m e" "inv_barycentric_matrix e = inv_J_m e"
    by (simp_all add: barycentric_matrix_def inv_barycentric_matrix_def)
  from lJ cols inv_vol inv_man left right gram get
  have "length (J_m e) = M \<and>
    (\<forall>j<M. J_m e ! j = vsub (cs ! (j + 1)) (cs ! 0)) \<and>
    (N = M \<longrightarrow> inv_J_m e = inverse_mat M (J_m e) \<and>
       (full_column_rank N (J_m e) \<longrightarrow>
          mat_mul M (inv_J_m e) (J_m e) = identity_mat M \<and>
          mat_mul M (J_m e) (inv_J_m e) = identity_mat M)) \<and>
    (N \<noteq> M \<longrightarrow> inv_J_m e = mat_mul M (inverse_mat M G) (transpose_mat N (J_m e)) \<and>
       (full_column_rank N (J_m e) \<longrightarrow>
          mat_mul M (inverse_mat M G) G = identity_mat M \<and>
          mat_mul M (inv_J_m e) (J_m e) = identity_mat M)) \<and>
    barycentric_matrix e = J_m e \<and> inv_barycentric_matrix e = inv_J_m e"
    by blast
  then show ?thesis unfolding G_def e_def .
qed

theorem constructor_caches_affine_map_witness:
  "is_mat 2 (2 + 1) [[1, 1], [3, 1], [2, 4]] \<and>
   J_m (new_Element 2 2 9 [4, 5, 6] [[1, 1], [3, 1], [2, 4]] [] True) ! 1 = [1, 3] \<and>
   full_column_rank 2 (J_m (new_Element 2 2 9 [4, 5, 6] [[1, 1], [3, 1], [2, 4]] [] True)) \<and>
   inv_J_m (new_Element 2 2 9 [4, 5, 6] [[1, 1], [3, 1], [2, 4]] [] True) =
     [[1 / 2, 0], [- 1 / 6, 1 / 3]] \<and>
   mat_mul 2 (J_m (new_Element 2 2 9 [4, 5, 6] [[1, 1], [3, 1], [2, 4]] [] True))
     (inv_J_m (new_Element 2 2 9 [4, 5, 6] [[1, 1], [3, 1], [2, 4]] [] True)) = identity_mat 2 \<and>
   is_mat 3 (2 + 1) [[1, 0, 0], [2, 1, 0], [1, 1, 1]] \<and>
   full_column_rank 3 (J_m (new_Element 2 3 9 [4, 5, 6] [[1, 0, 0], [2, 1, 0], [1, 1, 1]] [] True)) \<and>
   mat_mul 2 (inv_J_m (new_Element 2 3 9 [4, 5, 6] [[1, 0, 0], [2, 1, 0], [1, 1, 1]] [] True))
     (J_m (new_Element 2 3 9 [4, 5, 6] [[1, 0, 0], [2, 1, 0], [1, 1, 1]] [] True)) = identity_mat 2"
proof -
  let ?c1 = "[[1, 1], [3, 1], [2, 4]] :: vec list"
  let ?e1 = "new_Element 2 2 9 [4, 5, 6] ?c1 [] True"
  let ?c2 = "[[1, 0, 0], [2, 1, 0], [1, 1, 1]] :: vec list"
  let ?e2 = "new_Element 2 3 9 [4, 5, 6] ?c2 [] True"
  have c1: "is_mat 2 (2 + 1) ?c1" and c2: "is_mat 3 (2 + 1) ?c2" by (simp_all add: is_mat_def)
  have J1: "J_m ?e1 = [[2, 0], [1, 3]]" and J2: "J_m ?e2 = [[1, 1, 0], [0, 1, 1]]"
    by (simp_all add: new_Element_fields(4) vsub_def numeral_2_eq_2)
  have r1: "full_column_rank 2 (J_m ?e1)"
    unfolding J1 full_column_rank_def
    by (auto simp: length_Suc_conv numeral_2_eq_2 mat_vec_def transpose_mat_def dot_def zero_vec_def)
  have r2: "full_column_rank 3 (J_m ?e2)"
    unfolding J2 full_column_rank_def
    by (auto simp: length_Suc_conv numeral_2_eq_2 numeral_3_eq_3 mat_vec_def transpose_mat_def
        dot_def zero_vec_def)
  note t1 = constructor_caches_affine_map [OF c1, of 9 "[4, 5, 6]" "[]" True]
  note t2 = constructor_caches_affine_map [OF c2, of 9 "[4, 5, 6]" "[]" True]
  have col: "J_m ?e1 ! 1 = [1, 3]" using t1 by (simp add: vsub_def)
  have "inv_J_m ?e1 = inverse_mat 2 (J_m ?e1)" using t1 by blast
  also have "\<dots> = [[1 / 2, 0], [- 1 / 6, 1 / 3]]" unfolding J1 by code_simp
  finally have inv1: "inv_J_m ?e1 = [[1 / 2, 0], [- 1 / 6, 1 / 3]]" .
  have right1: "mat_mul 2 (J_m ?e1) (inv_J_m ?e1) = identity_mat 2" using t1 r1 by blast
  have left2: "mat_mul 2 (inv_J_m ?e2) (J_m ?e2) = identity_mat 2" using t2 r2 by fastforce
  from c1 col r1 inv1 right1 c2 r2 left2 show ?thesis by blast
qed

text \<open>
  C6. For an element whose barycentric matrix has full column rank (independent columns)
  and every vertex index \<open>k \<le> M\<close>, \<open>to_barycentric_coords(coords_[k])\<close> is the vector
  with \<open>M + 1\<close> entries that is one at position \<open>k\<close> and zero elsewhere.
\<close>

theorem vertex_barycentric_one_hot:
  assumes cs: "is_mat N (M + 1) cs"
    and r: "full_column_rank N (J_m (new_Element M N i ns cs nb b))"
    and k: "k \<le> M"
  shows "to_barycentric_coords (new_Element M N i ns cs nb b) (cs ! k) = unit_vec (M + 1) k"
proof -
  define e where "e = new_Element M N i ns cs nb b"
  have J: "is_mat N M (J_m e)" unfolding e_def by (rule is_mat_J [OF cs])
  have lJ: "length (J_m e) = M" using J by (simp add: is_mat_def)
  have l0: "length (cs ! 0) = N" by (rule is_mat_nth [OF cs]) simp
  have left: "mat_vec M (inv_J_m e) (mat_vec N (J_m e) x) = x" if "length x = M" for x
    unfolding e_def by (rule inv_J_left [OF cs r that])
  have bary: "to_barycentric_coords e x =
      (1 - sum_list (mat_vec M (inv_J_m e) (vsub x (cs ! 0)))) #
        mat_vec M (inv_J_m e) (vsub x (cs ! 0))" for x
    by (simp add: to_barycentric_coords_def Let_def e_def new_Element_fields(1,3))
  show ?thesis
  proof (cases k)
    case 0
    have "vsub (cs ! 0) (cs ! 0) = mat_vec N (J_m e) (zero_vec M)"
      using l0 by (simp only: vsub_self mat_vec_zero_vec [OF lJ])
    then have "mat_vec M (inv_J_m e) (vsub (cs ! 0) (cs ! 0)) = zero_vec M"
      using left [of "zero_vec M"] by simp
    then show ?thesis
      unfolding e_def [symmetric] using 0 by (simp add: bary sum_list_zero_vec unit_vec_0)
  next
    case (Suc j)
    then have j: "j < M" using k by simp
    have "J_m e ! j = vsub (cs ! Suc j) (cs ! 0)"
      using j by (simp add: e_def new_Element_fields(4))
    then have "vsub (cs ! Suc j) (cs ! 0) = mat_vec N (J_m e) (unit_vec M j)"
      by (simp only: mat_vec_unit [OF J j])
    then have "mat_vec M (inv_J_m e) (vsub (cs ! Suc j) (cs ! 0)) = unit_vec M j"
      using left [of "unit_vec M j"] by simp
    then show ?thesis
      unfolding e_def [symmetric] using Suc j by (simp add: bary sum_list_unit_vec unit_vec_Suc)
  qed
qed

theorem vertex_barycentric_one_hot_witness:
  "is_mat 3 (2 + 1) [[1, 0, 0], [2, 1, 0], [1, 1, 1]] \<and>
   full_column_rank 3 (J_m (new_Element 2 3 9 [4, 5, 6] [[1, 0, 0], [2, 1, 0], [1, 1, 1]] [] True)) \<and>
   to_barycentric_coords (new_Element 2 3 9 [4, 5, 6] [[1, 0, 0], [2, 1, 0], [1, 1, 1]] [] True)
     [1, 1, 1] = [0, 0, 1]"
proof -
  let ?cs = "[[1, 0, 0], [2, 1, 0], [1, 1, 1]] :: vec list"
  let ?e = "new_Element 2 3 9 [4, 5, 6] ?cs [] True"
  have cs: "is_mat 3 (2 + 1) ?cs" by (simp add: is_mat_def)
  have J: "J_m ?e = [[1, 1, 0], [0, 1, 1]]"
    by (simp add: new_Element_fields(4) vsub_def numeral_2_eq_2)
  have r: "full_column_rank 3 (J_m ?e)"
    unfolding J full_column_rank_def
    by (auto simp: length_Suc_conv numeral_2_eq_2 numeral_3_eq_3 mat_vec_def transpose_mat_def
        dot_def zero_vec_def)
  have "(2::nat) \<le> 2" by simp
  from vertex_barycentric_one_hot [OF cs r this]
  have "to_barycentric_coords ?e [1, 1, 1] = [0, 0, 1]"
    by (simp add: unit_vec_def numeral_3_eq_3)
  with cs r show ?thesis by simp
qed

text \<open>
  C7. For a volume element (\<open>M = N\<close>) with invertible barycentric matrix and a point
  \<open>x\<close> of \<open>N\<close> entries, with \<open>z\<close> the last \<open>M\<close> entries of
  \<open>to_barycentric_coords(x)\<close>: \<open>J_ * z + coords_[0] = x\<close>.
\<close>

theorem cartesian_round_trip:
  assumes cs: "is_mat N (N + 1) cs"
    and inv: "invertible_mat N (J_m (new_Element N N i ns cs nb b))"
    and x: "length x = N"
  shows "vadd (mat_vec N (J_m (new_Element N N i ns cs nb b))
                (tl (to_barycentric_coords (new_Element N N i ns cs nb b) x)))
           (coords_m (new_Element N N i ns cs nb b) ! 0) = x"
proof -
  define e where "e = new_Element N N i ns cs nb b"
  have J: "is_mat N N (J_m e)" unfolding e_def by (rule is_mat_J [OF cs])
  have r: "full_column_rank N (J_m e)"
    using invertible_full_column_rank [OF J] inv by (simp add: e_def)
  have l0: "length (cs ! 0) = N" by (rule is_mat_nth [OF cs]) simp
  have "tl (to_barycentric_coords e x) = mat_vec N (inverse_mat N (J_m e)) (vsub x (cs ! 0))"
    by (simp add: to_barycentric_coords_def Let_def e_def new_Element_fields)
  moreover have "mat_vec N (J_m e) (mat_vec N (inverse_mat N (J_m e)) (vsub x (cs ! 0))) =
      vsub x (cs ! 0)"
    by (rule inverse_mat_right [OF J r]) (simp add: x l0)
  ultimately have "vadd (mat_vec N (J_m e) (tl (to_barycentric_coords e x))) (cs ! 0) =
      vadd (vsub x (cs ! 0)) (cs ! 0)" by simp
  also have "\<dots> = x" by (rule vadd_vsub_cancel [OF x l0])
  finally show ?thesis by (simp add: e_def new_Element_fields(3))
qed

theorem cartesian_round_trip_witness:
  "is_mat 2 (2 + 1) [[1, 1], [3, 1], [2, 4]] \<and>
   invertible_mat 2 (J_m (new_Element 2 2 9 [4, 5, 6] [[1, 1], [3, 1], [2, 4]] [] True)) \<and>
   to_barycentric_coords (new_Element 2 2 9 [4, 5, 6] [[1, 1], [3, 1], [2, 4]] [] True) [5, 7] =
     [- 2, 1, 2] \<and>
   vadd (mat_vec 2 (J_m (new_Element 2 2 9 [4, 5, 6] [[1, 1], [3, 1], [2, 4]] [] True)) [1, 2])
     [1, 1] = [5, 7]"
proof -
  let ?cs = "[[1, 1], [3, 1], [2, 4]] :: vec list"
  let ?e = "new_Element 2 2 9 [4, 5, 6] ?cs [] True"
  have cs: "is_mat 2 (2 + 1) ?cs" by (simp add: is_mat_def)
  have J: "J_m ?e = [[2, 0], [1, 3]]"
    by (simp add: new_Element_fields(4) vsub_def numeral_2_eq_2)
  have "is_mat 2 2 [[1 / 2, 0], [- 1 / 6, 1 / 3]] \<and>
      mat_mul 2 [[1 / 2, 0], [- 1 / 6, 1 / 3]] [[2, 0], [1, 3]] = identity_mat 2 \<and>
      mat_mul 2 [[2, 0], [1, 3]] [[1 / 2, 0], [- 1 / 6, 1 / 3]] = identity_mat 2"
    by (simp add: is_mat_def mat_mul_def mat_vec_def transpose_mat_def dot_def identity_mat_def
        unit_vec_def numeral_2_eq_2)
  then have inv: "invertible_mat 2 (J_m ?e)"
    unfolding J invertible_mat_def by blast
  have bary: "to_barycentric_coords ?e [5, 7] = [- 2, 1, 2]"
    by (simp add: element_defs numeral_2_eq_2)
  have "length [5, 7 :: real] = 2" by simp
  from cartesian_round_trip [OF cs inv this]
  have "vadd (mat_vec 2 (J_m ?e) [1, 2]) [1, 1] = [5, 7]"
    by (simp add: bary new_Element_fields(3))
  with cs inv bary show ?thesis by simp
qed

text \<open>
  C8, in exact arithmetic. For a non-degenerate volume element (\<open>M = N\<close>, independent
  columns of \<open>J_\<close>), computed in the real numbers: \<open>mid_point()\<close> is \<open>J_\<close> times the
  vector with all \<open>M\<close> entries \<open>1 / (M + 1)\<close>, plus \<open>coords_[0]\<close>;
  \<open>to_barycentric_coords(mid_point())\<close> has all its \<open>M + 1\<close> entries equal to
  \<open>1 / (M + 1)\<close>; and \<open>contains(mid_point())\<close> holds.
\<close>

theorem mid_point_barycentric:
  assumes cs: "is_mat N (N + 1) cs"
    and r: "full_column_rank N (J_m (new_Element N N i ns cs nb b))"
  shows "mid_point (new_Element N N i ns cs nb b) =
           vadd (mat_vec N (J_m (new_Element N N i ns cs nb b)) (replicate N (1 / (real N + 1))))
             (cs ! 0) \<and>
         to_barycentric_coords (new_Element N N i ns cs nb b)
           (mid_point (new_Element N N i ns cs nb b)) = replicate (N + 1) (1 / (real N + 1)) \<and>
         contains distance (new_Element N N i ns cs nb b)
           (mid_point (new_Element N N i ns cs nb b))"
proof -
  define e where "e = new_Element N N i ns cs nb b"
  define c where "c = 1 / (real N + 1)"
  have l0: "length (cs ! 0) = N" by (rule is_mat_nth [OF cs]) simp
  have mid: "mid_point e = vadd (mat_vec N (J_m e) (replicate N c)) (cs ! 0)"
    by (simp add: mid_point_def Let_def e_def new_Element_fields(1,2,3) c_def add.commute)
  have "vsub (mid_point e) (cs ! 0) = mat_vec N (J_m e) (replicate N c)"
    unfolding mid by (rule vsub_vadd_cancel [OF length_mat_vec l0])
  moreover have "mat_vec N (inv_J_m e) (mat_vec N (J_m e) (replicate N c)) = replicate N c"
    unfolding e_def by (rule inv_J_left [OF cs r]) simp
  ultimately have z: "mat_vec N (inv_J_m e) (vsub (mid_point e) (cs ! 0)) = replicate N c"
    by simp
  have one: "1 - real N * c = c" by (simp add: c_def field_simps)
  have "to_barycentric_coords e (mid_point e) =
      (1 - sum_list (mat_vec N (inv_J_m e) (vsub (mid_point e) (cs ! 0)))) #
        mat_vec N (inv_J_m e) (vsub (mid_point e) (cs ! 0))"
    by (simp add: to_barycentric_coords_def Let_def e_def new_Element_fields(1,3))
  then have bary: "to_barycentric_coords e (mid_point e) = replicate (N + 1) c"
    by (simp add: z sum_list_replicate one)
  have dims: "embedding_dimension e = local_dimension e"
    by (simp add: e_def new_Element_fields(1,2))
  have "c > 0" by (simp add: c_def)
  then have "c \<ge> - 10 * epsilon" by (simp add: epsilon_def)
  then have "contains distance e (mid_point e)"
    by (simp add: contains_def contains_volume_def dims bary list_all_iff)
  with mid bary show ?thesis by (simp add: e_def c_def)
qed

theorem mid_point_barycentric_witness:
  "is_mat 3 (3 + 1) [[0, 0, 0], [2, 0, 0], [0, 2, 0], [0, 0, 2]] \<and>
   full_column_rank 3
     (J_m (new_Element 3 3 9 [4, 5, 6, 7] [[0, 0, 0], [2, 0, 0], [0, 2, 0], [0, 0, 2]] [] True)) \<and>
   mid_point (new_Element 3 3 9 [4, 5, 6, 7] [[0, 0, 0], [2, 0, 0], [0, 2, 0], [0, 0, 2]] [] True) =
     [1 / 2, 1 / 2, 1 / 2] \<and>
   to_barycentric_coords
     (new_Element 3 3 9 [4, 5, 6, 7] [[0, 0, 0], [2, 0, 0], [0, 2, 0], [0, 0, 2]] [] True)
     [1 / 2, 1 / 2, 1 / 2] = [1 / 4, 1 / 4, 1 / 4, 1 / 4] \<and>
   contains (\<lambda>vs x. 0)
     (new_Element 3 3 9 [4, 5, 6, 7] [[0, 0, 0], [2, 0, 0], [0, 2, 0], [0, 0, 2]] [] True)
     [1 / 2, 1 / 2, 1 / 2]"
proof -
  let ?cs = "[[0, 0, 0], [2, 0, 0], [0, 2, 0], [0, 0, 2]] :: vec list"
  let ?e = "new_Element 3 3 9 [4, 5, 6, 7] ?cs [] True"
  have cs: "is_mat 3 (3 + 1) ?cs" by (simp add: is_mat_def)
  have J: "J_m ?e = [[2, 0, 0], [0, 2, 0], [0, 0, 2]]"
    by (simp add: new_Element_fields(4) vsub_def numeral_3_eq_3)
  have r: "full_column_rank 3 (J_m ?e)"
    unfolding J full_column_rank_def
    by (auto simp: length_Suc_conv numeral_3_eq_3 mat_vec_def transpose_mat_def
        dot_def zero_vec_def)
  have mid: "vadd (mat_vec 3 (J_m ?e) (replicate 3 (1 / (real 3 + 1)))) (?cs ! 0) =
      [1 / 2, 1 / 2, 1 / 2]"
    unfolding J by (simp add: vadd_def mat_vec_def transpose_mat_def dot_def numeral_3_eq_3)
  have rep: "replicate (3 + 1) (1 / (real 3 + 1)) = [1 / 4, 1 / 4, 1 / 4, 1 / 4 :: real]"
    by (simp add: numeral_eq_Suc)
  note m = mid_point_barycentric [OF cs r, of "\<lambda>vs x. 0", unfolded mid rep]
  have m1: "mid_point ?e = [1 / 2, 1 / 2, 1 / 2]" using m by (rule conjunct1)
  have m2: "to_barycentric_coords ?e [1 / 2, 1 / 2, 1 / 2] = [1 / 4, 1 / 4, 1 / 4, 1 / 4]"
    using m unfolding m1 by blast
  have m3: "contains (\<lambda>vs x. 0) ?e [1 / 2, 1 / 2, 1 / 2]"
    using m unfolding m1 by blast
  from cs r m1 m2 m3 show ?thesis by blast
qed

text \<open>
  C8 without that qualification, of the program in double precision, does not hold. The
  triangle with the vertices \<open>(2^53, 2^53)\<close>, \<open>(2^53 + 2, 2^53)\<close> and
  \<open>(2^53 + 8, 2^53 + 2)\<close> is non-degenerate, and every operation of its constructor is
  exact: the columns of \<open>J_\<close> are \<open>(2, 0)\<close> and \<open>(8, 2)\<close>. Its centroid is
  \<open>(2^53 + 10/3, 2^53 + 2/3)\<close>, but the doubles are \<open>2\<close> apart there and \<open>mid_point()\<close>
  returns \<open>(2^53 + 4, 2^53)\<close>. The barycentric coordinates of that point are
  \<open>(-1, 2, 0)\<close>, not \<open>1/3\<close> each, and \<open>contains(mid_point())\<close> is false.
\<close>

theorem mid_point_double_counterexample:
  "J_m (new_Element_fl 2 2 7 [1, 2, 3]
     [[2 ^ 53, 2 ^ 53], [2 ^ 53 + 2, 2 ^ 53], [2 ^ 53 + 8, 2 ^ 53 + 2]] [] False) =
     [[2, 0], [8, 2]] \<and>
   full_column_rank 2 (J_m (new_Element_fl 2 2 7 [1, 2, 3]
     [[2 ^ 53, 2 ^ 53], [2 ^ 53 + 2, 2 ^ 53], [2 ^ 53 + 8, 2 ^ 53 + 2]] [] False)) \<and>
   inv_J_m (new_Element_fl 2 2 7 [1, 2, 3]
     [[2 ^ 53, 2 ^ 53], [2 ^ 53 + 2, 2 ^ 53], [2 ^ 53 + 8, 2 ^ 53 + 2]] [] False) =
     [[1 / 2, 0], [- 2, 1 / 2]] \<and>
   mid_point_fl (new_Element_fl 2 2 7 [1, 2, 3]
     [[2 ^ 53, 2 ^ 53], [2 ^ 53 + 2, 2 ^ 53], [2 ^ 53 + 8, 2 ^ 53 + 2]] [] False) =
     [2 ^ 53 + 4, 2 ^ 53] \<and>
   to_barycentric_coords_fl (new_Element_fl 2 2 7 [1, 2, 3]
     [[2 ^ 53, 2 ^ 53], [2 ^ 53 + 2, 2 ^ 53], [2 ^ 53 + 8, 2 ^ 53 + 2]] [] False)
     (mid_point_fl (new_Element_fl 2 2 7 [1, 2, 3]
       [[2 ^ 53, 2 ^ 53], [2 ^ 53 + 2, 2 ^ 53], [2 ^ 53 + 8, 2 ^ 53 + 2]] [] False)) =
     [- 1, 2, 0] \<and>
   \<not> contains_fl (\<lambda>vs x. 0) (new_Element_fl 2 2 7 [1, 2, 3]
     [[2 ^ 53, 2 ^ 53], [2 ^ 53 + 2, 2 ^ 53], [2 ^ 53 + 8, 2 ^ 53 + 2]] [] False)
     (mid_point_fl (new_Element_fl 2 2 7 [1, 2, 3]
       [[2 ^ 53, 2 ^ 53], [2 ^ 53 + 2, 2 ^ 53], [2 ^ 53 + 8, 2 ^ 53 + 2]] [] False))"
proof -
  let ?cs = "[[2 ^ 53, 2 ^ 53], [2 ^ 53 + 2, 2 ^ 53], [2 ^ 53 + 8, 2 ^ 53 + 2]] :: vec list"
  let ?e = "new_Element_fl 2 2 7 [1, 2, 3] ?cs [] False"
  have dims: "local_dimension ?e = 2" "embedding_dimension ?e = 2" and cs: "coords_m ?e = ?cs"
    by (simp_all add: new_Element_fl_fields)
  have J: "J_m ?e = [[2, 0], [8, 2]]"
    by (simp add: new_Element_fl_fields(4) vsub_fl_def numeral_2_eq_2 fl_eval)
  have r: "full_column_rank 2 (J_m ?e)"
    unfolding J full_column_rank_def
    by (auto simp: length_Suc_conv numeral_2_eq_2 mat_vec_def transpose_mat_def dot_def zero_vec_def)
  have "inverse_mat_fl 2 [[2, 0], [8, 2]] = [[1 / 2, 0], [- 2, 1 / 2]]"
    by (simp add: fl_ops fl_eval numeral_2_eq_2)
  then have inv: "inv_J_m ?e = [[1 / 2, 0], [- 2, 1 / 2]]"
    by (simp only: new_Element_fl_fields(5) J)
  have mid: "mid_point_fl ?e = [2 ^ 53 + 4, 2 ^ 53]"
    unfolding mid_point_fl_def dims cs J
    by (simp add: fl_ops fl_eval numeral_2_eq_2)
  have bary: "to_barycentric_coords_fl ?e (mid_point_fl ?e) = [- 1, 2, 0]"
    unfolding to_barycentric_coords_fl_def dims cs inv mid
    by (simp add: fl_ops fl_eval numeral_2_eq_2)
  have out: "\<not> contains_fl (\<lambda>vs x. 0) ?e (mid_point_fl ?e)"
    unfolding contains_fl_def contains_volume_fl_def dims bary
    by (simp add: epsilon_def)
  from J r inv mid bary out show ?thesis by blast
qed

section \<open>The measure\<close>

lemma measure_new_Element:
  "measure (new_Element M N i ns cs nb b) =
     (if M = N then \<bar>determinant M (J_m (new_Element M N i ns cs nb b))\<bar> / fact M
      else if M = 1 then norm_vec (J_m (new_Element M N i ns cs nb b) ! 0)
      else if M = 2 then norm_vec (cross (J_m (new_Element M N i ns cs nb b) ! 0)
                           (J_m (new_Element M N i ns cs nb b) ! 1)) / 2
      else 0)"
  by (simp add: measure_def new_Element_def Let_def ct_factorial_def)

lemma norm_vec_nonneg: "norm_vec v \<ge> 0"
  by (simp add: norm_vec_def dot_self_nonneg)

lemma determinant_1: "determinant 1 [c] = hd c"
  by simp

lemma norm_vec_single: "length c = 1 \<Longrightarrow> norm_vec c = \<bar>hd c\<bar>"
  by (cases c) (simp_all add: norm_vec_def dot_def)

text \<open>
  C4. The cached measure is the absolute value of the determinant of \<open>J_\<close> divided by
  \<open>M!\<close> when \<open>M = N\<close>; half the Euclidean norm of the cross product of the two columns
  of \<open>J_\<close> when \<open>M = 2\<close> and \<open>N = 3\<close>; the Euclidean norm of the single column of
  \<open>J_\<close> when \<open>M = 1\<close>; and it is never negative.
\<close>

theorem measure_formula:
  assumes cs: "is_mat N (M + 1) cs"
  shows "(M = N \<longrightarrow> measure (new_Element M N i ns cs nb b) =
            \<bar>determinant M (J_m (new_Element M N i ns cs nb b))\<bar> / fact M) \<and>
         (M = 2 \<and> N = 3 \<longrightarrow> measure (new_Element M N i ns cs nb b) =
            1 / 2 * norm_vec (cross (J_m (new_Element M N i ns cs nb b) ! 0)
                        (J_m (new_Element M N i ns cs nb b) ! 1))) \<and>
         (M = 1 \<longrightarrow> measure (new_Element M N i ns cs nb b) =
            norm_vec (J_m (new_Element M N i ns cs nb b) ! 0)) \<and>
         measure (new_Element M N i ns cs nb b) \<ge> 0"
proof -
  define e where "e = new_Element M N i ns cs nb b"
  note m = measure_new_Element [of M N i ns cs nb b, folded e_def]
  have J: "is_mat N M (J_m e)" unfolding e_def by (rule is_mat_J [OF cs])
  have seg: "measure e = norm_vec (J_m e ! 0)" if M: "M = 1"
  proof (cases "N = 1")
    case True
    have "length (J_m e) = 1" using J M by (simp add: is_mat_def)
    then obtain c where c: "J_m e = [c]" by (auto simp: length_Suc_conv)
    have "length c = 1" using is_mat_nth [OF J, of 0] M True c by simp
    then show ?thesis using m M True c by (simp add: norm_vec_single)
  next
    case False
    then show ?thesis using m M by simp
  qed
  have "measure e \<ge> 0" using m by (simp add: norm_vec_nonneg)
  moreover have "M = N \<Longrightarrow> measure e = \<bar>determinant M (J_m e)\<bar> / fact M" using m by simp
  moreover have "M = 2 \<and> N = 3 \<Longrightarrow>
      measure e = 1 / 2 * norm_vec (cross (J_m e ! 0) (J_m e ! 1))" using m by simp
  ultimately show ?thesis using seg unfolding e_def by blast
qed

theorem measure_formula_witness:
  "is_mat 2 (2 + 1) [[0, 0], [1, 0], [0, 1]] \<and>
   measure (new_Element 2 2 9 [4, 5, 6] [[0, 0], [1, 0], [0, 1]] [] True) = 1 / 2 \<and>
   is_mat 3 (2 + 1) [[0, 0, 0], [1, 0, 0], [0, 1, 0]] \<and>
   measure (new_Element 2 3 9 [4, 5, 6] [[0, 0, 0], [1, 0, 0], [0, 1, 0]] [] True) = 1 / 2 \<and>
   is_mat 2 (1 + 1) [[0, 0], [2, 0]] \<and>
   measure (new_Element 1 2 9 [4, 5] [[0, 0], [2, 0]] [] True) = 2"
proof -
  let ?t = "[[0, 0], [1, 0], [0, 1]] :: vec list"
  let ?s = "[[0, 0, 0], [1, 0, 0], [0, 1, 0]] :: vec list"
  let ?n = "[[0, 0], [2, 0]] :: vec list"
  have wf: "is_mat 2 (2 + 1) ?t" "is_mat 3 (2 + 1) ?s" "is_mat 2 (1 + 1) ?n"
    by (simp_all add: is_mat_def)
  have Jt: "J_m (new_Element 2 2 9 [4, 5, 6] ?t [] True) = [[1, 0], [0, 1]]"
    and Js: "J_m (new_Element 2 3 9 [4, 5, 6] ?s [] True) = [[1, 0, 0], [0, 1, 0]]"
    and Jn: "J_m (new_Element 1 2 9 [4, 5] ?n [] True) = [[2, 0]]"
    by (simp_all add: new_Element_fields(4) vsub_def numeral_2_eq_2)
  have "measure (new_Element 2 2 9 [4, 5, 6] ?t [] True) = \<bar>determinant 2 [[1, 0], [0, 1]]\<bar> / fact 2"
    using measure_formula [OF wf(1), of 9 "[4, 5, 6]" "[]" True] unfolding Jt by blast
  then have t: "measure (new_Element 2 2 9 [4, 5, 6] ?t [] True) = 1 / 2"
    by (simp add: numeral_2_eq_2)
  have "measure (new_Element 2 3 9 [4, 5, 6] ?s [] True) =
      1 / 2 * norm_vec (cross ([[1, 0, 0], [0, 1, 0]] ! 0) ([[1, 0, 0], [0, 1, 0]] ! 1))"
    using measure_formula [OF wf(2), of 9 "[4, 5, 6]" "[]" True] unfolding Js by blast
  then have s: "measure (new_Element 2 3 9 [4, 5, 6] ?s [] True) = 1 / 2"
    by (simp add: norm_vec_def dot_def)
  have "measure (new_Element 1 2 9 [4, 5] ?n [] True) = norm_vec ([[2, 0]] ! 0)"
    using measure_formula [OF wf(3), of 9 "[4, 5]" "[]" True] unfolding Jn by blast
  then have n: "measure (new_Element 1 2 9 [4, 5] ?n [] True) = 2"
    by (simp add: norm_vec_def dot_def)
  from wf t s n show ?thesis by blast
qed

text \<open>Exchanging two neighbouring vertices keeps the measure.\<close>

lemma measure_swap:
  assumes wf: "is_mat N (M + 1) (us @ a # b # vs)" and dims: "M = 2 \<longrightarrow> N = 2 \<or> N = 3"
  shows "measure (new_Element M N i ns (us @ a # b # vs) nb bd) =
         measure (new_Element M N i' ns' (us @ b # a # vs) nb' bd')"
proof -
  let ?cs = "us @ a # b # vs" and ?cs' = "us @ b # a # vs"
  have len: "length ?cs = M + 1" "length ?cs' = M + 1" using wf by (simp_all add: is_mat_def)
  have all: "\<forall>c\<in>set ?cs. length c = N" using wf by (simp add: is_mat_def list_all_iff)
  note J = J_map [OF len(1), of N i ns nb bd] and J' = J_map [OF len(2), of N i' ns' nb' bd']
  note m = measure_new_Element [of M N i ns ?cs nb bd]
    and m' = measure_new_Element [of M N i' ns' ?cs' nb' bd']
  consider (vol) "M = N" | (seg) "M \<noteq> N" "M = 1" | (tri) "M \<noteq> N" "M = 2"
    | (other) "M \<noteq> N" "M \<noteq> 1" "M \<noteq> 2" by blast
  then show ?thesis
  proof cases
    case vol
    have "determinant M (J_m (new_Element M N i' ns' ?cs' nb' bd')) =
          - determinant M (J_m (new_Element M N i ns ?cs nb bd))"
    proof (cases us)
      case Nil
      have "determinant M (vsub a b # map (\<lambda>c. vsub c b) vs) =
            - determinant M (vsub b a # map (\<lambda>c. vsub c a) vs)"
        using len all vol Nil by (intro determinant_swap_reference) simp_all
      then show ?thesis unfolding J J' using Nil by simp
    next
      case (Cons c0 us')
      let ?f = "\<lambda>c. vsub c c0"
      have "determinant M (map ?f us' @ ?f b # ?f a # map ?f vs) =
            - determinant M (map ?f us' @ ?f a # ?f b # map ?f vs)"
        using len Cons by (intro determinant_swap) simp
      then show ?thesis unfolding J J' using Cons by simp
    qed
    then show ?thesis unfolding m m' using vol by simp
  next
    case seg
    then have "us = []" "vs = []" using len by simp_all
    then show ?thesis
      unfolding m m' J J' using seg by (simp add: norm_vec_vsub_commute [of a b])
  next
    case tri
    then have N: "N = 3" using dims by simp
    from len tri consider (tail1) c where "us = []" "vs = [c]" | (head1) c where "us = [c]" "vs = []"
      by (cases us; cases vs) auto
    then show ?thesis
    proof cases
      case tail1
      then have "length a = 3" "length b = 3" "length c = 3" using all N by simp_all
      from cross_swap_reference [OF this] show ?thesis
        unfolding m m' J J' using tri tail1 by simp
    next
      case head1
      then have "length c = 3" "length a = 3" "length b = 3" using all N by simp_all
      from cross_swap_others [OF this] show ?thesis
        unfolding m m' J J' using tri head1 by simp
    qed
  next
    case other
    then show ?thesis unfolding m m' by simp
  qed
qed

text \<open>
  C9. An element built from the same vertex coordinates in any other order has the same
  measure. The statement covers the instances of the template that exist: for \<open>M = 2\<close>
  the cross product restricts a manifold element to \<open>N = 3\<close>. It needs no assumption
  of non-degeneracy.
\<close>

theorem measure_permutation_invariant:
  assumes wf: "is_mat N (M + 1) cs" and perm: "mset cs' = mset cs"
    and dims: "M = 2 \<longrightarrow> N = 2 \<or> N = 3"
  shows "measure (new_Element M N i' ns' cs' nb' b') = measure (new_Element M N i ns cs nb b)"
proof -
  have "measure (new_Element M N i ns cs' nb b) = measure (new_Element M N i ns cs nb b)"
  proof (rule permutation_invariant [where xs = cs, OF _ perm])
    fix us x y vs
    assume p: "mset (us @ x # y # vs) = mset cs"
    have "length (us @ x # y # vs) = length cs" using p by (rule mset_eq_length)
    moreover have "set (us @ x # y # vs) = set cs" using p by (rule mset_eq_setD)
    ultimately have "is_mat N (M + 1) (us @ x # y # vs)"
      using wf unfolding is_mat_def list_all_iff by simp
    then show "measure (new_Element M N i ns (us @ x # y # vs) nb b) =
               measure (new_Element M N i ns (us @ y # x # vs) nb b)"
      using dims by (rule measure_swap)
  qed
  moreover have "measure (new_Element M N i' ns' cs' nb' b') =
                 measure (new_Element M N i ns cs' nb b)"
    by (simp add: measure_new_Element new_Element_fields(4))
  ultimately show ?thesis by simp
qed

theorem measure_permutation_invariant_witness:
  "is_mat 2 (2 + 1) [[1, 1], [3, 1], [2, 4]] \<and>
   mset [[2, 4], [1, 1], [3, 1]] = mset [[1, 1], [3, 1], [2, 4 :: real]] \<and>
   measure (new_Element 2 2 9 [4, 5, 6] [[1, 1], [3, 1], [2, 4]] [] True) = 3 \<and>
   measure (new_Element 2 2 8 [6, 4, 5] [[2, 4], [1, 1], [3, 1]] [] True) = 3"
proof -
  let ?cs = "[[1, 1], [3, 1], [2, 4]] :: vec list"
  let ?cs' = "[[2, 4], [1, 1], [3, 1]] :: vec list"
  have wf: "is_mat 2 (2 + 1) ?cs" by (simp add: is_mat_def)
  have perm: "mset ?cs' = mset ?cs" by simp
  have dims: "(2::nat) = 2 \<longrightarrow> (2::nat) = 2 \<or> (2::nat) = 3" by simp
  have m: "measure (new_Element 2 2 9 [4, 5, 6] ?cs [] True) = 3"
    by (simp add: element_defs numeral_2_eq_2)
  from measure_permutation_invariant [OF wf perm dims, of 8 "[6, 4, 5]" "[]" True 9 "[4, 5, 6]" "[]" True]
  have "measure (new_Element 2 2 8 [6, 4, 5] ?cs' [] True) = 3" by (simp only: m)
  with wf perm m show ?thesis by blast
qed

end
